theory Spec2Isabelle
  imports Complex_Main "HOL-Library.Multiset"
begin

section \<open>Python errors\<close>

datatype error =
  KeyError | IndexError | ValueError | OverflowError | UnboundLocalError
  | AttributeError | ZeroDivisionError | StopIteration

section \<open>Label remapping: \<open>get_transformation_dict\<close> and \<open>transform_labels\<close>\<close>

text \<open>\<open>np.unique\<close>: the distinct values of the input, sorted ascending.\<close>

definition np_unique :: "int list \<Rightarrow> int list" where
  "np_unique labels = sort (remdups labels)"

text \<open>
  The transformation info is either a Python dict (kept as the association list of its
  items, in insertion order) or a numpy array.
\<close>

datatype trans = TDict "(int \<times> nat) list" | TArr "nat list"

text \<open>\<open>np.max\<close> of a one-dimensional array; it raises on the empty array.\<close>

definition np_max :: "'a::linorder list \<Rightarrow> error + 'a" where
  "np_max xs = (if xs = [] then Inl ValueError else Inr (Max (set xs)))"

definition get_transformation_dict :: "int list \<Rightarrow> string \<Rightarrow> error + trans" where
  "get_transformation_dict labels dict_or_np =
     (let trans_dict = zip (np_unique labels) [0..<length (np_unique labels)] in
      if dict_or_np = ''np'' \<or> dict_or_np = ''numpy'' then
        (case np_max (np_unique labels) of
           Inl e \<Rightarrow> Inl e
         | Inr m \<Rightarrow> Inr (TArr (map (\<lambda>i. case map_of trans_dict i of Some v \<Rightarrow> v | None \<Rightarrow> 0)
                                   [0..m])))
      else Inr (TDict trans_dict))"

text \<open>
  \<open>trans_dict[l]\<close>: a dict raises \<open>KeyError\<close> on a missing key; a numpy array counts a
  negative index from the end and raises \<open>IndexError\<close> out of bounds.
\<close>

fun lookup :: "trans \<Rightarrow> int \<Rightarrow> error + nat" where
  "lookup (TDict d) l = (case map_of d l of None \<Rightarrow> Inl KeyError | Some v \<Rightarrow> Inr v)"
| "lookup (TArr a) l =
     (let n = int (length a); k = (if l < 0 then n + l else l)
      in if 0 \<le> k \<and> k < n then Inr (a ! nat k) else Inl IndexError)"

datatype 'a label_data = Scalar 'a | Seq "'a list"

fun lookup_all :: "trans \<Rightarrow> int list \<Rightarrow> error + nat list" where
  "lookup_all t [] = Inr []"
| "lookup_all t (l # ls) =
     (case lookup t l of
        Inl e \<Rightarrow> Inl e
      | Inr v \<Rightarrow> (case lookup_all t ls of Inl e \<Rightarrow> Inl e | Inr vs \<Rightarrow> Inr (v # vs)))"

fun transform_labels :: "int label_data \<Rightarrow> trans \<Rightarrow> error + nat label_data" where
  "transform_labels (Seq ls) t = map_sum id Seq (lookup_all t ls)"
| "transform_labels (Scalar l) t = map_sum id Scalar (lookup t l)"

text \<open>\<open>sorted(trans_dict.keys())\<close>, the \<open>classes_orig\<close> entry of \<open>prepare_dataset\<close>.\<close>

definition classes_orig :: "(int \<times> nat) list \<Rightarrow> int list" where
  "classes_orig d = sort (map fst d)"

section \<open>Normalisation: \<open>normalise_minmax\<close>\<close>

text \<open>
  A sample is its intensity vector. The function returns the normalised vector, or prints
  \<open>Sample is empty\<close> and returns \<open>None\<close>; the model returns the value together with the
  lines printed. Intensities are modelled as real numbers.
\<close>

definition normalise_minmax :: "real list \<Rightarrow> error + (real list option \<times> string list)" where
  "normalise_minmax sample =
     (case np_max sample of
        Inl e \<Rightarrow> Inl e
      | Inr m \<Rightarrow>
          if m > 0 then Inr (Some (map (\<lambda>x. x / m) sample), [])
          else Inr (None, [''Sample is empty'']))"

section \<open>Baseline correction: \<open>baseline_als_optimized\<close>\<close>

text \<open>
  The input \<open>y\<close> is a two-column array, one row \<open>(wavelength, intensity)\<close> per data point.
  \<open>np.max(y)\<close> is the maximum over all entries of both columns.
\<close>

definition flatten :: "(real \<times> real) list \<Rightarrow> real list" where
  "flatten y = concat (map (\<lambda>(wl, v). [wl, v]) y)"

text \<open>Lines 172-173: whether the warning is emitted.\<close>

definition als_warning :: "(real \<times> real) list \<Rightarrow> error + bool" where
  "als_warning y = (case np_max (flatten y) of Inl e \<Rightarrow> Inl e | Inr m \<Rightarrow> Inr (m < 0))"

text \<open>\<open>.clip(min=0)\<close>\<close>

definition clip0 :: "real list \<Rightarrow> real list" where
  "clip0 xs = map (\<lambda>x. max x 0) xs"

text \<open>Line 184: \<open>w = p * (y > z) + (1-p) * (y < z)\<close>, elementwise.\<close>

definition reweight :: "real \<Rightarrow> real list \<Rightarrow> real list \<Rightarrow> real list" where
  "reweight p y z = map2 (\<lambda>yi zi. p * of_bool (yi > zi) + (1 - p) * of_bool (yi < zi)) y z"

text \<open>
  The loop of lines 180-184. The sparse solver of scipy is a parameter: \<open>spsolve D w r\<close>
  stands for \<open>spsolve(W + D, r)\<close> with \<open>W\<close> the diagonal matrix of \<open>w\<close>. The state is the
  weight vector and the last fitted baseline (\<open>None\<close> while \<open>z\<close> is unbound).
\<close>

fun als_loop ::
  "('m \<Rightarrow> real list \<Rightarrow> real list \<Rightarrow> real list) \<Rightarrow> 'm \<Rightarrow> real \<Rightarrow> real list \<Rightarrow> nat \<Rightarrow>
   real list \<times> real list option \<Rightarrow> real list \<times> real list option" where
  "als_loop spsolve D p y 0 (w, z) = (w, z)"
| "als_loop spsolve D p y (Suc n) (w, z) =
     (let z' = spsolve D w (map2 (*) w y);
          w' = reweight p y z'
      in als_loop spsolve D p y n (w', Some z'))"

text \<open>
  The whole function. \<open>penalty lam L\<close> stands for lines 176-177, the matrix
  \<open>lam * D.dot(D.transpose())\<close> for a signal of length \<open>L\<close>, built by scipy. The result is
  the corrected signal together with whether the warning was emitted.
\<close>

definition baseline_als_optimized ::
  "(real \<Rightarrow> nat \<Rightarrow> error + 'm) \<Rightarrow> ('m \<Rightarrow> real list \<Rightarrow> real list \<Rightarrow> real list) \<Rightarrow>
   (real \<times> real) list \<Rightarrow> real \<Rightarrow> real \<Rightarrow> nat \<Rightarrow> error + (real list \<times> bool)" where
  "baseline_als_optimized penalty spsolve y lam p niter =
     (case als_warning y of
        Inl e \<Rightarrow> Inl e
      | Inr warned \<Rightarrow>
          (let y1 = clip0 (map snd y) in
           case penalty lam (length y1) of
             Inl e \<Rightarrow> Inl e
           | Inr D \<Rightarrow>
               (case als_loop spsolve D p y1 niter (replicate (length y1) 1, None) of
                  (w, None) \<Rightarrow> Inl UnboundLocalError
                | (w, Some z) \<Rightarrow> Inr (clip0 (map2 (-) y1 z), warned))))"

section \<open>Class weights in \<open>prepare_dataset\<close>\<close>

text \<open>
  Modelled from the spec: \<open>compute_class_weight('balanced', classes, y)\<close> of scikit-learn,
  which the repository calls and does not contain. The spec gives
  \<open>weight(c) = total_samples / (num_classes * count(c))\<close>, one weight per class in the
  order of \<open>classes\<close>, failing when a class has no sample.
\<close>

definition compute_class_weight :: "int list \<Rightarrow> int list \<Rightarrow> error + real list" where
  "compute_class_weight classes y =
     (if \<exists>c\<in>set classes. count_list y c = 0 then Inl ZeroDivisionError
      else Inr (map (\<lambda>c. real (length y) / (real (length classes) * real (count_list y c))) classes))"

text \<open>
  Lines 409, 410 and 428: the transformation dict of the training labels, the weights for
  its sorted keys, and the dict \<open>{i: weight for i, weight in enumerate(class_weights)}\<close>
  as the list of its items.
\<close>

definition class_weights :: "int list \<Rightarrow> error + (nat \<times> real) list" where
  "class_weights train_labels =
     (case get_transformation_dict train_labels ''dict'' of
        Inl e \<Rightarrow> Inl e
      | Inr (TArr a) \<Rightarrow> Inl AttributeError
      | Inr (TDict trans_dict) \<Rightarrow>
          (case compute_class_weight (classes_orig trans_dict) train_labels of
             Inl e \<Rightarrow> Inl e
           | Inr ws \<Rightarrow> Inr (enumerate 0 ws)))"

section \<open>The batch generator: \<open>__data_generator\<close>\<close>

text \<open>
  What the generator takes from outside is collected in a record of parameters:
  \<^item> \<open>shuffle_fn\<close> is \<open>sklearn.utils.shuffle\<close>: from the state of the random number
    generator and a list it gives the shuffled list and the new state;
  \<^item> \<open>load_row\<close> is the body of the \<open>with\<close> block (lines 348-352) for one file: it loads
    the file, transforms its label, normalises its intensities, and gives the row of
    \<open>samples\<close> and the row of \<open>labels\<close>, or the error raised on the way;
  \<^item> \<open>zero_sample\<close> and \<open>zero_label\<close> are the rows of the \<open>np.zeros\<close> matrices;
  \<^item> \<open>batch_size\<close> and \<open>shuffle_and_repeat\<close> are the arguments of these names.
\<close>

record ('f, 'g, 's, 'l) gen_params =
  shuffle_fn :: "'g \<Rightarrow> 'f list \<Rightarrow> 'f list \<times> 'g"
  load_row :: "'f \<Rightarrow> error + ('s \<times> 'l)"
  zero_sample :: 's
  zero_label :: 'l
  batch_size :: nat
  shuffle_and_repeat :: bool

text \<open>The local variables that live across \<open>yield\<close>, and the random number generator.\<close>

record ('f, 'g) gen_state =
  gs_i :: nat
  gs_files :: "'f list"
  gs_run :: bool
  gs_rng :: 'g

text \<open>Lines 328-330.\<close>

definition gen_init ::
  "('f, 'g, 's, 'l) gen_params \<Rightarrow> 'f list \<Rightarrow> 'g \<Rightarrow> ('f, 'g) gen_state" where
  "gen_init P files g =
     (if shuffle_and_repeat P
      then (case shuffle_fn P g files of
              (fs, g') \<Rightarrow> \<lparr>gs_i = 0, gs_files = fs, gs_run = True, gs_rng = g'\<rparr>)
      else \<lparr>gs_i = 0, gs_files = files, gs_run = True, gs_rng = g\<rparr>)"

text \<open>Lines 339-341: the cursor goes back to 0 and the list is shuffled again.\<close>

definition reshuffle :: "('f, 'g, 's, 'l) gen_params \<Rightarrow> ('f, 'g) gen_state \<Rightarrow> ('f, 'g) gen_state" where
  "reshuffle P st =
     (case shuffle_fn P (gs_rng st) (gs_files st) of
        (fs, g') \<Rightarrow> st\<lparr>gs_i := 0, gs_files := fs, gs_rng := g'\<rparr>)"

text \<open>
  The loop \<open>for j in range(batch_size)\<close> (lines 336-354) over the values of \<open>j\<close> still to
  come. \<open>break\<close> leaves it with \<open>run\<close> false and both matrices cut to their first \<open>j\<close>
  rows; \<open>files[i]\<close> raises \<open>IndexError\<close> when the list is empty.
\<close>

fun for_j ::
  "('f, 'g, 's, 'l) gen_params \<Rightarrow> nat list \<Rightarrow> ('f, 'g) gen_state \<Rightarrow> 's list \<Rightarrow> 'l list \<Rightarrow>
   error + (('f, 'g) gen_state \<times> 's list \<times> 'l list)" where
  "for_j P [] st samples labels = Inr (st, samples, labels)"
| "for_j P (j # js) st samples labels =
     (if gs_i st \<ge> length (gs_files st) \<and> \<not> shuffle_and_repeat P
      then Inr (st\<lparr>gs_run := False\<rparr>, take j samples, take j labels)
      else
        let st1 = (if gs_i st \<ge> length (gs_files st) then reshuffle P st else st) in
        if gs_i st1 \<ge> length (gs_files st1) then Inl IndexError
        else
          (case load_row P (gs_files st1 ! gs_i st1) of
             Inl e \<Rightarrow> Inl e
           | Inr (s, l) \<Rightarrow>
               for_j P js (st1\<lparr>gs_i := gs_i st1 + 1\<rparr>) (samples[j := s]) (labels[j := l])))"

text \<open>
  One \<open>next()\<close> on the generator: one round of \<open>while run\<close> up to the \<open>yield\<close>, or
  \<open>StopIteration\<close> once \<open>run\<close> is false.
\<close>

definition gen_next ::
  "('f, 'g, 's, 'l) gen_params \<Rightarrow> ('f, 'g) gen_state \<Rightarrow>
   error + (('s list \<times> 'l list) \<times> ('f, 'g) gen_state)" where
  "gen_next P st =
     (if \<not> gs_run st then Inl StopIteration
      else
        (case for_j P [0..<batch_size P] st
                (replicate (batch_size P) (zero_sample P)) (replicate (batch_size P) (zero_label P)) of
           Inl e \<Rightarrow> Inl e
         | Inr (st', samples, labels) \<Rightarrow> Inr ((samples, labels), st')))"

text \<open>The first \<open>m\<close> batches, by \<open>m\<close> calls of \<open>next()\<close>.\<close>

fun gen_take ::
  "('f, 'g, 's, 'l) gen_params \<Rightarrow> nat \<Rightarrow> ('f, 'g) gen_state \<Rightarrow>
   error + (('s list \<times> 'l list) list \<times> ('f, 'g) gen_state)" where
  "gen_take P 0 st = Inr ([], st)"
| "gen_take P (Suc m) st =
     (case gen_next P st of
        Inl e \<Rightarrow> Inl e
      | Inr (b, st') \<Rightarrow>
          (case gen_take P m st' of
             Inl e \<Rightarrow> Inl e
           | Inr (bs, st'') \<Rightarrow> Inr (b # bs, st'')))"

text \<open>
  All batches up to \<open>StopIteration\<close>, as \<open>list(generator)\<close> collects them. The generator
  may go on for ever, so the consumer has fuel: \<open>None\<close> means that the generator had not
  stopped when the fuel ran out.
\<close>

fun gen_list ::
  "('f, 'g, 's, 'l) gen_params \<Rightarrow> nat \<Rightarrow> ('f, 'g) gen_state \<Rightarrow>
   (error + ('s list \<times> 'l list) list) option" where
  "gen_list P 0 st = None"
| "gen_list P (Suc k) st =
     (case gen_next P st of
        Inl e \<Rightarrow> (if e = StopIteration then Some (Inr []) else Some (Inl e))
      | Inr (b, st') \<Rightarrow>
          (case gen_list P k st' of
             None \<Rightarrow> None
           | Some (Inl e) \<Rightarrow> Some (Inl e)
           | Some (Inr bs) \<Rightarrow> Some (Inr (b # bs))))"

text \<open>
  For the repeating mode: the file list after \<open>k\<close> reshuffles following the first shuffle,
  with the state of the random number generator, and the file read at position \<open>t\<close> of the
  concatenation of these lists.
\<close>

fun pass :: "('f, 'g, 's, 'l) gen_params \<Rightarrow> 'f list \<Rightarrow> 'g \<Rightarrow> nat \<Rightarrow> 'f list \<times> 'g" where
  "pass P files g 0 = shuffle_fn P g files"
| "pass P files g (Suc k) = (case pass P files g k of (fs, g') \<Rightarrow> shuffle_fn P g' fs)"

definition file_at :: "('f, 'g, 's, 'l) gen_params \<Rightarrow> 'f list \<Rightarrow> 'g \<Rightarrow> nat \<Rightarrow> 'f" where
  "file_at P files g t = fst (pass P files g (t div length files)) ! (t mod length files)"

text \<open>
  A small instance of the parameters for running the generator on concrete inputs: files are
  numbers, the file \<open>f\<close> holds the sample row \<open>f\<close> and the label row \<open>f + 100\<close>, and shuffling
  reverses the list.
\<close>

definition example_params :: "nat \<Rightarrow> bool \<Rightarrow> (nat, unit, nat, nat) gen_params" where
  "example_params b r =
     \<lparr>shuffle_fn = (\<lambda>g xs. (rev xs, g)), load_row = (\<lambda>f. Inr (f, f + 100)),
      zero_sample = 0, zero_label = 0, batch_size = b, shuffle_and_repeat = r\<rparr>"

section \<open>Grid reconstruction: \<open>get_64shot_transition_matrix\<close>\<close>

text \<open>\<open>s.split(c)\<close> for a separator of one character: the pieces between its occurrences.\<close>

fun split_on :: "char \<Rightarrow> string \<Rightarrow> string list" where
  "split_on c [] = [ [] ]"
| "split_on c (x # xs) =
     (if x = c then [] # split_on c xs
      else (case split_on c xs of [] \<Rightarrow> [ [x] ] | w # ws \<Rightarrow> (x # w) # ws))"

text \<open>
  Lines 233 and 239: the file name is the part of the path after the last separator
  (\<open>os.sep\<close>, a parameter); it must have exactly five fields between underscores, of which
  the first (mineral id) and the fourth (measure point) are kept. Unpacking any other
  number of fields raises \<open>ValueError\<close>.
\<close>

definition file_key :: "char \<Rightarrow> string \<Rightarrow> error + (string \<times> string)" where
  "file_key sep path =
     (case split_on CHR ''_'' (last (split_on sep path)) of
        [m_id, _, _, measure_point, _] \<Rightarrow> Inr (m_id, measure_point)
      | _ \<Rightarrow> Inl ValueError)"

text \<open>
  The look-ahead loop \<open>for j in range(i, len(test_filepaths))\<close> of lines 238-244, over the
  values of \<open>j\<close> still to come; it returns \<open>i\<close> and \<open>split\<close>.
\<close>

fun look_ahead ::
  "char \<Rightarrow> string list \<Rightarrow> string \<times> string \<Rightarrow> nat list \<Rightarrow> nat \<Rightarrow> string list \<Rightarrow>
   error + (nat \<times> string list)" where
  "look_ahead sep test_filepaths key [] i split = Inr (i, split)"
| "look_ahead sep test_filepaths key (j # js) i split =
     (case file_key sep (test_filepaths ! j) of
        Inl e \<Rightarrow> Inl e
      | Inr key_j \<Rightarrow>
          if key = key_j
          then look_ahead sep test_filepaths key js (i + 1) (split @ [test_filepaths ! j])
          else Inr (i, split))"

text \<open>The loop \<open>while i < len(test_filepaths)\<close> of lines 231-245.\<close>

function measure_point_split ::
  "char \<Rightarrow> string list \<Rightarrow> nat \<Rightarrow> string list list \<Rightarrow> error + string list list" where
  "measure_point_split sep test_filepaths i acc =
     (if i < length test_filepaths then
        (case file_key sep (test_filepaths ! i) of
           Inl e \<Rightarrow> Inl e
         | Inr key \<Rightarrow>
             (case look_ahead sep test_filepaths key [i..<length test_filepaths] i [] of
                Inl e \<Rightarrow> Inl e
              | Inr (i', split) \<Rightarrow> measure_point_split sep test_filepaths i' (acc @ [split])))
      else Inr acc)"
  by pat_completeness auto
termination
proof (relation "measure (\<lambda>(sep, fs, i, acc). length fs - i)")
  show "wf (measure (\<lambda>(sep, fs, i, acc). length fs - i))" by simp
next
  fix sep :: char and test_filepaths :: "string list" and i :: nat and acc :: "string list list"
    and key x i' split
  assume lt: "i < length test_filepaths"
    and k: "file_key sep (test_filepaths ! i) = Inr key"
    and la: "look_ahead sep test_filepaths key [i..<length test_filepaths] i [] = Inr x"
    and x: "(i', split) = x"
  have adv: "look_ahead sep test_filepaths key js i0 split0 = Inr (i', split) \<Longrightarrow> i0 \<le> i'"
    for js i0 split0
  proof (induction js arbitrary: i0 split0)
    case Nil
    then show ?case by simp
  next
    case (Cons j js)
    then show ?case by (fastforce split: sum.splits if_splits)
  qed
  have upt: "[i..<length test_filepaths] = i # [Suc i..<length test_filepaths]"
    using lt by (rule upt_conv_Cons)
  have "look_ahead sep test_filepaths key [Suc i..<length test_filepaths] (i + 1) ([] @ [test_filepaths ! i])
        = Inr (i', split)"
    using la k x unfolding upt by simp
  then have "i + 1 \<le> i'" by (rule adv)
  then show "((sep, test_filepaths, i', acc @ [split]), (sep, test_filepaths, i, acc))
        \<in> measure (\<lambda>(sep, fs, i, acc). length fs - i)"
    using lt by simp
qed

text \<open>
  Line 256: the shot id of a sample. \<open>py_int\<close> is Python's \<open>int\<close> on strings, a parameter;
  the slice \<open>[:-4]\<close> drops the last four characters.
\<close>

definition shot_token :: "string \<Rightarrow> string" where
  "shot_token sample =
     (let name = last (split_on CHR ''_'' (last (split_on CHR ''/'' sample)))
      in take (length name - 4) name)"

definition shot_id_of :: "(string \<Rightarrow> error + int) \<Rightarrow> string \<Rightarrow> error + int" where
  "shot_id_of py_int sample =
     (case py_int (shot_token sample) of Inl e \<Rightarrow> Inl e | Inr s \<Rightarrow> Inr (s - 1))"

text \<open>
  The inner loop \<open>for sample in mp\<close> of lines 254-260. The matrix has the dtype \<open>int\<close> of
  numpy, 64 bits wide: storing a value outside its range raises \<open>OverflowError\<close>. The
  counter \<open>j\<close> is below the length of the list of files and always fits.
\<close>

definition fits_int64 :: "int \<Rightarrow> bool" where
  "fits_int64 v \<longleftrightarrow> - (2 ^ 63) \<le> v \<and> v < 2 ^ 63"

fun fill_mp ::
  "(string \<Rightarrow> error + int) \<Rightarrow> string list \<Rightarrow> nat \<Rightarrow> nat \<Rightarrow> int list list \<Rightarrow>
   error + (nat \<times> int list list)" where
  "fill_mp py_int [] i j transition_matrix = Inr (i, transition_matrix)"
| "fill_mp py_int (sample # mp) i j transition_matrix =
     (case shot_id_of py_int sample of
        Inl e \<Rightarrow> Inl e
      | Inr shot_id \<Rightarrow>
          if i \<ge> length transition_matrix then Inl IndexError
          else if \<not> fits_int64 (shot_id div 8) then Inl OverflowError
          else fill_mp py_int mp (i + 1) j
                 (transition_matrix[i := [int j, shot_id div 8, shot_id mod 8] ]))"

text \<open>The loop \<open>for mp in measure_point_split\<close> of lines 253-261.\<close>

fun fill_all ::
  "(string \<Rightarrow> error + int) \<Rightarrow> string list list \<Rightarrow> nat \<Rightarrow> nat \<Rightarrow> int list list \<Rightarrow>
   error + int list list" where
  "fill_all py_int [] i j transition_matrix = Inr transition_matrix"
| "fill_all py_int (mp # mps) i j transition_matrix =
     (case fill_mp py_int mp i j transition_matrix of
        Inl e \<Rightarrow> Inl e
      | Inr (i', tm) \<Rightarrow> fill_all py_int mps i' (j + 1) tm)"

definition get_64shot_transition_matrix ::
  "char \<Rightarrow> (string \<Rightarrow> error + int) \<Rightarrow> string list \<Rightarrow> error + int list list" where
  "get_64shot_transition_matrix sep py_int test_filepaths =
     (case measure_point_split sep test_filepaths 0 [] of
        Inl e \<Rightarrow> Inl e
      | Inr splits \<Rightarrow>
          fill_all py_int splits 0 0 (replicate (length test_filepaths) [0, 0, 0]))"

text \<open>
  The measure-point index of each file from the keys of the files in order: the first file
  has index \<open>j\<close>, and each later file has the index of the file before it when their keys
  agree and the next index when they differ.
\<close>

fun run_ids :: "nat \<Rightarrow> 'k list \<Rightarrow> nat list" where
  "run_ids j [] = []"
| "run_ids j [k] = [j]"
| "run_ids j (k # k' # ks) = j # run_ids (if k = k' then j else Suc j) (k' # ks)"

text \<open>
  The runs of a list: the maximal blocks of consecutive elements with the key of their first
  element.
\<close>

function runs :: "('a \<Rightarrow> 'k) \<Rightarrow> 'a list \<Rightarrow> 'a list list" where
  "runs key [] = []"
| "runs key (x # xs) =
     (x # takeWhile (\<lambda>y. key x = key y) xs) # runs key (dropWhile (\<lambda>y. key x = key y) xs)"
  by pat_completeness auto
termination
  by (relation "measure (\<lambda>(key, xs). length xs)")
    (auto simp add: le_imp_less_Suc length_dropWhile_le)

text \<open>
  The file names of the data sets, by their fields. The conversion script cuts the fields
  from fixed positions of the name: mineral id, class, subgroup, measure point and shot
  number, with underscores between them, and an extension of four characters after the shot
  number. A path is a directory, the separator and such a name.
\<close>

record shot_file =
  sf_dir :: string
  sf_mineral :: string
  sf_class :: string
  sf_subgroup :: string
  sf_measure_point :: string
  sf_shot :: string
  sf_ext :: string

definition file_name :: "shot_file \<Rightarrow> string" where
  "file_name d =
     sf_mineral d @ CHR ''_'' # sf_class d @ CHR ''_'' # sf_subgroup d @ CHR ''_'' #
     sf_measure_point d @ CHR ''_'' # sf_shot d @ sf_ext d"

definition file_path :: "char \<Rightarrow> shot_file \<Rightarrow> string" where
  "file_path sep d = sf_dir d @ sep # file_name d"

text \<open>
  The fields of a well-formed name hold no underscore, the name holds no separator, the
  shot number and the extension hold no slash, and the extension has four characters.
\<close>

definition wf_file :: "char \<Rightarrow> shot_file \<Rightarrow> bool" where
  "wf_file sep d \<longleftrightarrow>
     CHR ''_'' \<notin> set (sf_mineral d) \<and> CHR ''_'' \<notin> set (sf_class d) \<and>
     CHR ''_'' \<notin> set (sf_subgroup d) \<and> CHR ''_'' \<notin> set (sf_measure_point d) \<and>
     CHR ''_'' \<notin> set (sf_shot d @ sf_ext d) \<and> CHR ''/'' \<notin> set (sf_shot d @ sf_ext d) \<and>
     sep \<notin> set (file_name d) \<and> length (sf_ext d) = 4"

text \<open>
  A parser of unsigned decimal numbers, the part of Python's \<open>int\<close> that file names need,
  for running the function on concrete names.
\<close>

definition digit_of :: "char \<Rightarrow> nat option" where
  "digit_of c = (if 48 \<le> (of_char c :: nat) \<and> (of_char c :: nat) \<le> 57
                 then Some (of_char c - 48) else None)"

fun decimal_from :: "nat \<Rightarrow> string \<Rightarrow> error + int" where
  "decimal_from acc [] = Inr (int acc)"
| "decimal_from acc (c # cs) =
     (case digit_of c of None \<Rightarrow> Inl ValueError | Some d \<Rightarrow> decimal_from (10 * acc + d) cs)"

definition decimal :: "string \<Rightarrow> error + int" where
  "decimal s = (if s = [] then Inl ValueError else decimal_from 0 s)"

section \<open>Verified properties\<close>

subsection \<open>Label remapping\<close>

lemma np_unique_sorted: "sorted (np_unique xs)"
  and np_unique_distinct: "distinct (np_unique xs)"
  and np_unique_set: "set (np_unique xs) = set xs"
  by (simp_all add: np_unique_def)

lemma map_of_zip_upt_nth:
  assumes "distinct us" "i < length us"
  shows "map_of (zip us [0..<length us]) (us ! i) = Some i"
proof -
  have "map_of (zip us [0..<length us]) (us ! i) = Some ([0..<length us] ! i)"
    using assms by (intro map_of_zip_nth) simp_all
  then show ?thesis using assms by simp
qed

lemma map_of_zip_upt_None:
  "l \<notin> set us \<Longrightarrow> map_of (zip us [0..<length us]) l = None"
  by (simp add: map_of_zip_is_None)

text \<open>
  C4. For every list of integer label IDs the dict form of the transformation info has the
  unique IDs, sorted ascending, as its keys and the indices \<open>0..N-1\<close> in that order as
  its values; transforming any of the original IDs gives an index \<open>i < N\<close>, and looking
  \<open>i\<close> up in the sorted key list (\<open>classes_orig\<close>) gives the ID back.
\<close>

theorem transformation_dict_enumerates:
  "\<exists>d. get_transformation_dict labels ''dict'' = Inr (TDict d) \<and>
       map fst d = np_unique labels \<and> map snd d = [0..<length d] \<and>
       sorted (map fst d) \<and> distinct (map fst d) \<and> set (map fst d) = set labels \<and>
       (\<forall>l\<in>set labels. \<exists>i<length d.
           transform_labels (Scalar l) (TDict d) = Inr (Scalar i) \<and> classes_orig d ! i = l)"
proof -
  let ?u = "np_unique labels"
  let ?d = "zip ?u [0..<length ?u]"
  have g: "get_transformation_dict labels ''dict'' = Inr (TDict ?d)"
    by (simp add: get_transformation_dict_def)
  have f: "map fst ?d = ?u" by simp
  have s: "map snd ?d = [0..<length ?d]" by simp
  have co: "classes_orig ?d = ?u"
    unfolding classes_orig_def f using np_unique_sorted by (simp add: sort_key_id_if_sorted)
  have inv: "\<exists>i<length ?d. transform_labels (Scalar l) (TDict ?d) = Inr (Scalar i) \<and> classes_orig ?d ! i = l"
    if "l \<in> set labels" for l
  proof -
    from that have "l \<in> set ?u" by (simp add: np_unique_set)
    then obtain i where i: "i < length ?u" "?u ! i = l" by (auto simp: in_set_conv_nth)
    have "map_of ?d (?u ! i) = Some i"
      using np_unique_distinct i(1) by (rule map_of_zip_upt_nth)
    then have "transform_labels (Scalar l) (TDict ?d) = Inr (Scalar i)"
      using i(2) by simp
    then show ?thesis using i co by auto
  qed
  show ?thesis
    using g f s inv np_unique_sorted [of labels] np_unique_distinct [of labels] np_unique_set [of labels]
    by (intro exI [of _ ?d]) (simp only: f, blast)
qed

theorem transformation_dict_enumerates_witness:
  "get_transformation_dict [11, 28, 73, 98] ''dict'' = Inr (TDict [(11, 0), (28, 1), (73, 2), (98, 3)]) \<and>
   transform_labels (Seq [11, 28, 73, 98]) (TDict [(11, 0), (28, 1), (73, 2), (98, 3)]) = Inr (Seq [0, 1, 2, 3]) \<and>
   map (\<lambda>i. classes_orig [(11, 0), (28, 1), (73, 2), (98, 3)] ! i) [0, 1, 2, 3] = [11, 28, 73, 98]"
  using transformation_dict_enumerates [of "[11, 28, 73, 98]"]
  by (simp add: get_transformation_dict_def np_unique_def classes_orig_def)

text \<open>
  C5 (as amended). For every non-negative raw label ID absent from the training labels, the
  dict form fails with \<open>KeyError\<close>. The array form has \<open>max(ID) + 1\<close> slots; the absent
  ID resolves silently to index 0 when it lies below the largest known ID, and fails with
  \<open>IndexError\<close> when it lies above it.
\<close>

theorem unmapped_label_lookup:
  assumes "l \<notin> set labels" and "labels \<noteq> []" and "0 \<le> l"
  shows "\<exists>d a. get_transformation_dict labels ''dict'' = Inr (TDict d) \<and>
           transform_labels (Scalar l) (TDict d) = Inl KeyError \<and>
           get_transformation_dict labels ''np'' = Inr (TArr a) \<and>
           int (length a) = max 0 (Max (set labels) + 1) \<and>
           transform_labels (Scalar l) (TArr a) =
             (if l < Max (set labels) then Inr (Scalar 0) else Inl IndexError)"
proof -
  let ?u = "np_unique labels"
  let ?d = "zip ?u [0..<length ?u]"
  let ?m = "Max (set labels)"
  let ?a = "map (\<lambda>i. case map_of ?d i of Some v \<Rightarrow> v | None \<Rightarrow> 0) [0..?m]"
  have u: "?u \<noteq> []" using assms(2) np_unique_set [of labels] by auto
  have notin: "l \<notin> set ?u" using assms(1) by (simp add: np_unique_set)
  have none: "map_of ?d l = None" using notin by (rule map_of_zip_upt_None)
  have gd: "get_transformation_dict labels ''dict'' = Inr (TDict ?d)"
    by (simp add: get_transformation_dict_def)
  have kd: "transform_labels (Scalar l) (TDict ?d) = Inl KeyError"
    by (simp only: transform_labels.simps lookup.simps none option.case map_sum.simps id_apply)
  have ga: "get_transformation_dict labels ''np'' = Inr (TArr ?a)"
    using u by (simp add: get_transformation_dict_def np_max_def np_unique_set)
  have len: "int (length ?a) = max 0 (?m + 1)" by simp
  have "?m \<in> set labels" using assms(2) by (intro Max_in) simp_all
  then have ne: "l \<noteq> ?m" using assms(1) by auto
  have la: "transform_labels (Scalar l) (TArr ?a) =
             (if l < ?m then Inr (Scalar 0) else Inl IndexError)"
  proof (cases "l < ?m")
    case True
    then have "?a ! nat l = (case map_of ?d ([0..?m] ! nat l) of Some v \<Rightarrow> v | None \<Rightarrow> 0)"
      using assms(3) by (intro nth_map) simp
    also have "[0..?m] ! nat l = l" using True assms(3) by simp
    finally have "?a ! nat l = 0" by (simp only: none option.case)
    then show ?thesis using True assms(3) by (simp add: Let_def)
  next
    case False
    then show ?thesis using assms(3) ne by (simp add: Let_def)
  qed
  show ?thesis using gd kd ga len la by blast
qed

theorem unmapped_label_lookup_witness:
  "get_transformation_dict [1, 3] ''dict'' = Inr (TDict [(1, 0), (3, 1)]) \<and>
   transform_labels (Scalar 2) (TDict [(1, 0), (3, 1)]) = Inl KeyError \<and>
   get_transformation_dict [1, 3] ''np'' = Inr (TArr [0, 0, 0, 1]) \<and>
   transform_labels (Scalar 2) (TArr [0, 0, 0, 1]) = Inr (Scalar 0)"
  using unmapped_label_lookup [of 2 "[1, 3]"]
  by (simp add: get_transformation_dict_def np_unique_def np_max_def upto.simps)

text \<open>
  C5 as stated fails: ID 5 is absent from the labels \<open>[1, 3]\<close>, and the array form raises
  \<open>IndexError\<close> for it instead of resolving to index 0.
\<close>

theorem unmapped_label_array_counterexample:
  "5 \<notin> set [1, 3 :: int] \<and>
   get_transformation_dict [1, 3] ''np'' = Inr (TArr [0, 0, 0, 1]) \<and>
   transform_labels (Scalar 5) (TArr [0, 0, 0, 1]) = Inl IndexError"
  by (simp add: get_transformation_dict_def np_unique_def np_max_def upto.simps)

subsection \<open>Normalisation\<close>

lemma Max_map_div:
  fixes xs :: "real list"
  assumes "xs \<noteq> []" and "0 < Max (set xs)"
  shows "Max (set (map (\<lambda>x. x / Max (set xs)) xs)) = 1"
proof -
  let ?m = "Max (set xs)"
  have m: "?m \<in> set xs" using assms(1) by (intro Max_in) simp_all
  have "Max ((\<lambda>x. x / ?m) ` set xs) = 1"
  proof (rule Max_eqI)
    show "finite ((\<lambda>x. x / ?m) ` set xs)" by simp
    show "y \<le> 1" if "y \<in> (\<lambda>x. x / ?m) ` set xs" for y
    proof -
      from that obtain x where x: "x \<in> set xs" "y = x / ?m" by auto
      then have "x \<le> ?m" by simp
      then show ?thesis using x(2) assms(2) by (simp add: divide_le_eq)
    qed
    show "1 \<in> (\<lambda>x. x / ?m) ` set xs"
    proof
      show "1 = ?m / ?m" using assms(2) by simp
      show "?m \<in> set xs" by (rule m)
    qed
  qed
  then show ?thesis by simp
qed

text \<open>
  C8. For a sample whose maximum is strictly positive, min-max normalisation returns the
  sample divided by its maximum, and the maximum of the output is 1. For a sample whose
  maximum is at most 0 it prints \<open>Sample is empty\<close> and returns \<open>None\<close>: nothing is
  divided and no error is raised.
\<close>

theorem normalise_minmax_cases:
  assumes "sample \<noteq> []"
  shows "(0 < Max (set sample) \<longrightarrow>
            normalise_minmax sample = Inr (Some (map (\<lambda>x. x / Max (set sample)) sample), []) \<and>
            Max (set (map (\<lambda>x. x / Max (set sample)) sample)) = 1) \<and>
         (Max (set sample) \<le> 0 \<longrightarrow>
            normalise_minmax sample = Inr (None, [''Sample is empty'']))"
proof (cases "0 < Max (set sample)")
  case True
  have "normalise_minmax sample = Inr (Some (map (\<lambda>x. x / Max (set sample)) sample), [])"
    unfolding normalise_minmax_def np_max_def using assms True by (simp only: if_False if_True sum.case)
  then show ?thesis using True Max_map_div [OF assms True] by (simp only: simp_thms not_le [symmetric])
next
  case False
  have "normalise_minmax sample = Inr (None, [''Sample is empty''])"
    unfolding normalise_minmax_def np_max_def using assms False by (simp only: if_False sum.case)
  then show ?thesis using False by (simp only: simp_thms)
qed

theorem normalise_minmax_cases_witness:
  "normalise_minmax [1, 2, 4] = Inr (Some [1 / 4, 1 / 2, 1], []) \<and>
   normalise_minmax [0, 0] = Inr (None, [''Sample is empty''])"
  using normalise_minmax_cases [of "[1, 2, 4]"] normalise_minmax_cases [of "[0, 0]"]
  by simp

subsection \<open>Baseline correction\<close>

text \<open>
  C3. The claim asks for the warning exactly when the intensity column has no positive
  value. The code tests \<open>np.max(y) < 0\<close> on the whole two-column input: an all-zero
  intensity column, and a negative one beside positive wavelengths, give no warning.
\<close>

theorem als_warning_zero_signal:
  "als_warning [(500, 0), (501, 0), (502, 0)] = Inr False \<and>
   als_warning [(500, - 1), (501, - 2), (502, - 3)] = Inr False"
  by (simp add: als_warning_def flatten_def np_max_def)

lemma als_loop_Suc_reweight:
  "\<exists>z. als_loop spsolve D p y (Suc n) s = (reweight p y z, Some z)"
proof (induction n arbitrary: s)
  case 0
  show ?case by (cases s) (simp add: Let_def)
next
  case (Suc n)
  obtain w z where s: "s = (w, z)" by (cases s)
  have "als_loop spsolve D p y (Suc (Suc n)) s =
        als_loop spsolve D p y (Suc n)
          (reweight p y (spsolve D w (map2 (*) w y)), Some (spsolve D w (map2 (*) w y)))"
    unfolding s by (subst als_loop.simps(2)) (simp only: Let_def)
  then show ?case using Suc.IH by metis
qed

lemma als_loop_Suc_length:
  assumes "\<And>w r. length (spsolve D w r) = length r" and "length (fst s) = length y"
  shows "length (fst (als_loop spsolve D p y n s)) = length y \<and>
         (\<forall>z. snd (als_loop spsolve D p y (Suc n) s) = Some z \<longrightarrow> length z = length y)"
  using assms(2)
proof (induction n arbitrary: s)
  case 0
  then show ?case by (cases s) (simp add: Let_def assms(1))
next
  case (Suc n)
  obtain w z where s: "s = (w, z)" by (cases s)
  let ?z = "spsolve D w (map2 (*) w y)"
  let ?s = "(reweight p y ?z, Some ?z)"
  have lw: "length w = length y" using Suc.prems s by simp
  have st: "\<And>k. als_loop spsolve D p y (Suc k) s = als_loop spsolve D p y k ?s"
    unfolding s by (simp add: Let_def)
  have "length (fst ?s) = length y" using lw by (simp add: reweight_def assms(1))
  from Suc.IH [OF this] show ?case unfolding st by simp
qed

lemma reweight_nth:
  assumes "k < length y" "length z = length y"
  shows "reweight p y z ! k = (if y ! k > z ! k then p else if y ! k < z ! k then 1 - p else 0)"
  using assms by (simp add: reweight_def)

text \<open>
  C10. After every reweighting iteration (any number \<open>n + 1\<close> of rounds of the loop, started
  from all-one weights) the weight of each signal point is \<open>p\<close> where the signal lies strictly
  above the baseline just fitted, \<open>1 - p\<close> where it lies strictly below, and 0 where they are
  equal; so every weight is one of 0, \<open>p\<close>, \<open>1 - p\<close>. The solver returns a vector of the
  length of its right-hand side.
\<close>

theorem als_weights_after_update:
  assumes "\<And>w r. length (spsolve D w r) = length r"
  shows "\<exists>w z. als_loop spsolve D p y (Suc n) (replicate (length y) 1, None) = (w, Some z) \<and>
           length w = length y \<and> length z = length y \<and>
           (\<forall>k<length y.
              w ! k = (if y ! k > z ! k then p else if y ! k < z ! k then 1 - p else 0) \<and>
              w ! k \<in> {0, p, 1 - p})"
proof -
  let ?s = "(replicate (length y) (1::real), None :: real list option)"
  obtain z where z: "als_loop spsolve D p y (Suc n) ?s = (reweight p y z, Some z)"
    using als_loop_Suc_reweight [of spsolve D p y n ?s] by blast
  have "length (fst ?s) = length y" by simp
  from als_loop_Suc_length [of spsolve D ?s y p n, OF assms this]
  have lz: "length z = length y" unfolding z by simp
  have lw: "length (reweight p y z) = length y" using lz by (simp add: reweight_def)
  have nth: "reweight p y z ! k = (if y ! k > z ! k then p else if y ! k < z ! k then 1 - p else 0)"
    if "k < length y" for k using that lz by (rule reweight_nth)
  have mem: "reweight p y z ! k \<in> {0, p, 1 - p}" if "k < length y" for k
    unfolding nth [OF that] by simp
  show ?thesis using z lw lz nth mem by blast
qed

theorem als_weights_after_update_witness:
  "als_loop (\<lambda>D w r. map (\<lambda>x. 3) r) () (1 / 10) [0, 4, 3] (Suc 1) (replicate 3 1, None)
     = ([9 / 10, 1 / 10, 0], Some [3, 3, 3])"
  using als_weights_after_update
    [where spsolve = "\<lambda>D w r. map (\<lambda>x. 3) r" and D = "()" and p = "1 / 10" and y = "[0, 4, 3]" and n = 1]
  by (simp add: reweight_def Let_def eval_nat_numeral)

subsection \<open>Class weights\<close>

lemma count_list_pos: "c \<in> set xs \<Longrightarrow> 0 < count_list xs c"
  by (induction xs) auto

text \<open>
  C7. The classes are the sorted unique training labels, so each of them has at least one
  sample; the weight stored under index \<open>i\<close> is
  \<open>total_samples / (num_classes * count(c))\<close> for the \<open>i\<close>-th smallest label \<open>c\<close>, and the keys
  are \<open>0..N-1\<close> in ascending order.
\<close>

theorem class_weights_balanced:
  "\<exists>ws. class_weights train_labels = Inr ws \<and>
        map fst ws = [0..<length (np_unique train_labels)] \<and>
        (\<forall>i<length (np_unique train_labels).
           0 < count_list train_labels (np_unique train_labels ! i) \<and>
           map_of ws i = Some (real (length train_labels) /
                (real (length (np_unique train_labels)) *
                 real (count_list train_labels (np_unique train_labels ! i)))))"
proof -
  let ?u = "np_unique train_labels"
  let ?d = "zip ?u [0..<length ?u]"
  let ?w = "\<lambda>c. real (length train_labels) / (real (length ?u) * real (count_list train_labels c))"
  let ?ws = "enumerate 0 (map ?w ?u)"
  have co: "classes_orig ?d = ?u"
    unfolding classes_orig_def using np_unique_sorted by (simp add: sort_key_id_if_sorted)
  have pos: "0 < count_list train_labels c" if "c \<in> set ?u" for c
    using that by (intro count_list_pos) (simp add: np_unique_set)
  then have nz: "\<not> (\<exists>c\<in>set ?u. count_list train_labels c = 0)" by fastforce
  have ccw: "compute_class_weight ?u train_labels = Inr (map ?w ?u)"
    unfolding compute_class_weight_def using nz by (simp only: if_False)
  have cw: "class_weights train_labels = Inr ?ws"
    unfolding class_weights_def get_transformation_dict_def
    by (simp add: co ccw)
  have keys: "map fst ?ws = [0..<length ?u]" by (simp add: enumerate_eq_zip)
  have val: "map_of ?ws i = Some (?w (?u ! i))" if "i < length ?u" for i
  proof -
    have "map_of (zip [0..<length ?u] (map ?w ?u)) ([0..<length ?u] ! i) = Some (map ?w ?u ! i)"
      using that by (intro map_of_zip_nth) simp_all
    then show ?thesis using that by (simp add: enumerate_eq_zip)
  qed
  have "\<forall>i<length ?u. 0 < count_list train_labels (?u ! i) \<and> map_of ?ws i = Some (?w (?u ! i))"
    using pos val by simp
  then show ?thesis using cw keys by blast
qed

theorem class_weights_balanced_witness:
  "class_weights [0, 0, 0, 1, 1, 1, 1] = Inr [(0, 7 / 6), (1, 7 / 8)]"
  using class_weights_balanced [of "[0, 0, 0, 1, 1, 1, 1]"]
  by (simp add: class_weights_def get_transformation_dict_def np_unique_def classes_orig_def
      compute_class_weight_def enumerate_eq_zip)

subsection \<open>The batch generator, single pass\<close>

lemma for_j_single_pass:
  assumes sp: "\<not> shuffle_and_repeat P"
    and ld: "\<And>f. f \<in> set fs \<Longrightarrow> load_row P f = Inr (smp f, lbl f)"
  shows "i \<le> length fs \<Longrightarrow> j + d = b \<Longrightarrow> length S = b \<Longrightarrow> length L = b \<Longrightarrow>
     for_j P [j..<b] \<lparr>gs_i = i, gs_files = fs, gs_run = r, gs_rng = g\<rparr> S L =
       Inr (\<lparr>gs_i = min (length fs) (i + d), gs_files = fs,
             gs_run = (r \<and> i + d \<le> length fs), gs_rng = g\<rparr>,
            take j S @ map smp (take d (drop i fs)),
            take j L @ map lbl (take d (drop i fs)))"
proof (induction d arbitrary: i j S L r)
  case 0
  then show ?case by simp
next
  case (Suc d)
  have jb: "j < b" using Suc.prems(2) by simp
  then have upt: "[j..<b] = j # [Suc j..<b]" by (rule upt_conv_Cons)
  show ?case
  proof (cases "i < length fs")
    case False
    then have "i = length fs" using Suc.prems(1) by simp
    then show ?thesis unfolding upt using sp by simp
  next
    case True
    then have mem: "fs ! i \<in> set fs" by simp
    have step: "for_j P [j..<b] \<lparr>gs_i = i, gs_files = fs, gs_run = r, gs_rng = g\<rparr> S L =
          for_j P [Suc j..<b] \<lparr>gs_i = Suc i, gs_files = fs, gs_run = r, gs_rng = g\<rparr>
            (S[j := smp (fs ! i)]) (L[j := lbl (fs ! i)])"
      unfolding upt using True ld [OF mem] by (simp add: Let_def)
    have ih: "for_j P [Suc j..<b] \<lparr>gs_i = Suc i, gs_files = fs, gs_run = r, gs_rng = g\<rparr>
            (S[j := smp (fs ! i)]) (L[j := lbl (fs ! i)]) =
       Inr (\<lparr>gs_i = min (length fs) (Suc i + d), gs_files = fs,
             gs_run = (r \<and> Suc i + d \<le> length fs), gs_rng = g\<rparr>,
            take (Suc j) (S[j := smp (fs ! i)]) @ map smp (take d (drop (Suc i) fs)),
            take (Suc j) (L[j := lbl (fs ! i)]) @ map lbl (take d (drop (Suc i) fs)))"
      using True Suc.prems by (intro Suc.IH) simp_all
    have tS: "take (Suc j) (S[j := x]) = take j S @ [x]" for x
      using jb Suc.prems(3) by (simp add: take_Suc_conv_app_nth)
    have tL: "take (Suc j) (L[j := x]) = take j L @ [x]" for x
      using jb Suc.prems(4) by (simp add: take_Suc_conv_app_nth)
    have dr: "take (Suc d) (drop i fs) = fs ! i # take d (drop (Suc i) fs)"
      using True by (simp add: Cons_nth_drop_Suc [symmetric])
    show ?thesis unfolding step ih tS tL dr by simp
  qed
qed

lemma gen_next_single_pass:
  assumes sp: "\<not> shuffle_and_repeat P"
    and ld: "\<And>f. f \<in> set fs \<Longrightarrow> load_row P f = Inr (smp f, lbl f)"
    and i: "i \<le> length fs"
  shows "gen_next P \<lparr>gs_i = i, gs_files = fs, gs_run = True, gs_rng = g\<rparr> =
       Inr ((map smp (take (batch_size P) (drop i fs)), map lbl (take (batch_size P) (drop i fs))),
            \<lparr>gs_i = min (length fs) (i + batch_size P), gs_files = fs,
             gs_run = (i + batch_size P \<le> length fs), gs_rng = g\<rparr>)"
proof -
  have "for_j P [0..<batch_size P] \<lparr>gs_i = i, gs_files = fs, gs_run = True, gs_rng = g\<rparr>
          (replicate (batch_size P) (zero_sample P)) (replicate (batch_size P) (zero_label P)) =
       Inr (\<lparr>gs_i = min (length fs) (i + batch_size P), gs_files = fs,
             gs_run = (True \<and> i + batch_size P \<le> length fs), gs_rng = g\<rparr>,
            take 0 (replicate (batch_size P) (zero_sample P)) @ map smp (take (batch_size P) (drop i fs)),
            take 0 (replicate (batch_size P) (zero_label P)) @ map lbl (take (batch_size P) (drop i fs)))"
    using sp ld i by (intro for_j_single_pass) simp_all
  then show ?thesis by (simp add: gen_next_def)
qed

lemma gen_list_stopped:
  "\<not> gs_run st \<Longrightarrow> gen_list P (Suc k) st = Some (Inr [])"
  by (simp add: gen_next_def)

lemma gen_list_single_pass_from:
  assumes sp: "\<not> shuffle_and_repeat P"
    and ld: "\<And>f. f \<in> set fs \<Longrightarrow> load_row P f = Inr (smp f, lbl f)"
    and b: "0 < batch_size P"
  shows "i \<le> length fs \<Longrightarrow> (length fs - i) div batch_size P + 2 \<le> k \<Longrightarrow>
     gen_list P k \<lparr>gs_i = i, gs_files = fs, gs_run = True, gs_rng = g\<rparr> =
       Some (Inr (map (\<lambda>q. (map smp (take (batch_size P) (drop (i + q * batch_size P) fs)),
                            map lbl (take (batch_size P) (drop (i + q * batch_size P) fs))))
                  [0..<Suc ((length fs - i) div batch_size P)]))"
proof (induction k arbitrary: i)
  case 0
  then show ?case by simp
next
  case (Suc k)
  let ?b = "batch_size P"
  let ?B = "\<lambda>i q. (map smp (take ?b (drop (i + q * ?b) fs)), map lbl (take ?b (drop (i + q * ?b) fs)))"
  note nx = gen_next_single_pass [OF sp ld Suc.prems(1), where g = g]
  show ?case
  proof (cases "i + ?b \<le> length fs")
    case True
    have "length fs - i = (length fs - (i + ?b)) + ?b" using True by simp
    then have "(length fs - i) div ?b = ((length fs - (i + ?b)) + ?b) div ?b" by (rule arg_cong)
    then have d: "(length fs - i) div ?b = Suc ((length fs - (i + ?b)) div ?b)"
      using b by simp
    have k: "(length fs - (i + ?b)) div ?b + 2 \<le> k" using Suc.prems(2) d by simp
    have ih: "gen_list P k \<lparr>gs_i = i + ?b, gs_files = fs, gs_run = True, gs_rng = g\<rparr> =
       Some (Inr (map (?B (i + ?b)) [0..<Suc ((length fs - (i + ?b)) div ?b)]))"
      using True k by (intro Suc.IH) simp_all
    have shift: "map (?B (i + ?b)) [0..<n] = map (?B i) (map Suc [0..<n])" for n
      by (simp add: add.assoc add.commute)
    have "gen_list P (Suc k) \<lparr>gs_i = i, gs_files = fs, gs_run = True, gs_rng = g\<rparr> =
       Some (Inr (?B i 0 # map (?B (i + ?b)) [0..<Suc ((length fs - (i + ?b)) div ?b)]))"
      using True ih by (simp add: nx min_def)
    also have "?B i 0 # map (?B (i + ?b)) [0..<Suc ((length fs - (i + ?b)) div ?b)] =
       map (?B i) [0..<Suc ((length fs - i) div ?b)]"
      unfolding d shift by (simp only: map_Suc_upt upt_conv_Cons [of 0 "Suc (Suc _)"] list.map)
    finally show ?thesis .
  next
    case False
    then have d: "(length fs - i) div ?b = 0" using b by simp
    obtain k' where k': "k = Suc k'" using Suc.prems(2) d by (cases k) simp_all
    have "gen_list P (Suc k) \<lparr>gs_i = i, gs_files = fs, gs_run = True, gs_rng = g\<rparr> = Some (Inr [?B i 0])"
    proof -
      have st: "gen_list P k \<lparr>gs_i = min (length fs) (i + ?b), gs_files = fs,
                  gs_run = (i + ?b \<le> length fs), gs_rng = g\<rparr> = Some (Inr [])"
        unfolding k' using False by (intro gen_list_stopped) simp
      show ?thesis
        by (subst gen_list.simps) (simp add: nx st del: gen_list.simps)
    qed
    then show ?thesis unfolding d by simp
  qed
qed

lemma gen_list_single_pass:
  assumes sp: "\<not> shuffle_and_repeat P"
    and ld: "\<And>f. f \<in> set files \<Longrightarrow> load_row P f = Inr (smp f, lbl f)"
    and b: "0 < batch_size P"
    and k: "length files div batch_size P + 2 \<le> k"
  shows "gen_list P k (gen_init P files g) =
       Some (Inr (map (\<lambda>q. (map smp (take (batch_size P) (drop (q * batch_size P) files)),
                            map lbl (take (batch_size P) (drop (q * batch_size P) files))))
                  [0..<Suc (length files div batch_size P)]))"
proof -
  have "gen_list P k \<lparr>gs_i = 0, gs_files = files, gs_run = True, gs_rng = g\<rparr> =
       Some (Inr (map (\<lambda>q. (map smp (take (batch_size P) (drop (0 + q * batch_size P) files)),
                            map lbl (take (batch_size P) (drop (0 + q * batch_size P) files))))
                  [0..<Suc ((length files - 0) div batch_size P)]))"
    using sp ld b k by (intro gen_list_single_pass_from) simp_all
  then show ?thesis using sp by (simp add: gen_init_def)
qed

lemma concat_slices: "concat (map (\<lambda>q. take b (drop (q * b) xs)) [0..<m]) = take (m * b) xs"
proof (induction m)
  case 0
  show ?case by simp
next
  case (Suc m)
  have "take (m * b) xs @ take b (drop (m * b) xs) = take (m * b + b) xs"
    by (simp add: take_add)
  then show ?case using Suc by (simp add: add.commute)
qed

lemma concat_slices_all:
  assumes "0 < b"
  shows "concat (map (\<lambda>q. take b (drop (q * b) xs)) [0..<Suc (length xs div b)]) = xs"
proof -
  have "length xs < Suc (length xs div b) * b"
    using assms by (metis dividend_less_div_times mult.commute mult_Suc_right add.commute)
  then show ?thesis unfolding concat_slices by simp
qed

lemma length_slice_full:
  assumes "q < length xs div b"
  shows "length (take b (drop (q * b) xs)) = b"
proof -
  have "Suc q \<le> length xs div b" using assms by simp
  then have "Suc q * b \<le> (length xs div b) * b" by (rule mult_le_mono1)
  also have "\<dots> \<le> length xs" by simp
  finally show ?thesis by simp
qed

lemma length_slice_last:
  assumes "0 < b"
  shows "length (take b (drop ((length xs div b) * b) xs)) = length xs mod b"
proof -
  have "length xs - (length xs div b) * b = length xs mod b"
    by (simp add: minus_div_mult_eq_mod)
  then show ?thesis using assms by simp
qed

lemma lengths_slices:
  assumes "0 < b"
  shows "map (\<lambda>q. length (take b (drop (q * b) xs))) [0..<Suc (length xs div b)] =
         replicate (length xs div b) b @ [length xs mod b]"
proof -
  have "map (\<lambda>q. length (take b (drop (q * b) xs))) [0..<length xs div b] = replicate (length xs div b) b"
    by (rule nth_equalityI) (simp_all add: length_slice_full del: length_take length_drop)
  then show ?thesis using length_slice_last [OF assms, of xs] by (simp del: length_take length_drop)
qed

text \<open>
  C1 (as amended). In single-pass mode, for a non-empty file list of length \<open>n\<close> whose files
  all load and a batch size \<open>b > 0\<close>, the generator stops after \<open>n div b + 1\<close> batches; the
  rows of its batches, one after the other, are the rows of the files in their given order,
  each once; and the batch sizes are \<open>n div b\<close> times \<open>b\<close> followed by \<open>n mod b\<close>, whether or
  not \<open>n\<close> is a multiple of \<open>b\<close>: the last batch is there also when it has no rows. For 10
  files and batch size 4 the sizes are 4, 4, 2.
\<close>

theorem single_pass_batches:
  assumes ne: "files \<noteq> []"
    and b: "0 < batch_size P"
    and sp: "\<not> shuffle_and_repeat P"
    and ld: "\<And>f. f \<in> set files \<Longrightarrow> load_row P f = Inr (smp f, lbl f)"
  shows "\<exists>bs. gen_list P (length files div batch_size P + 2) (gen_init P files g) = Some (Inr bs) \<and>
           concat (map fst bs) = map smp files \<and> concat (map snd bs) = map lbl files \<and>
           map (\<lambda>x. length (fst x)) bs =
             replicate (length files div batch_size P) (batch_size P) @ [length files mod batch_size P] \<and>
           map (\<lambda>x. length (snd x)) bs =
             replicate (length files div batch_size P) (batch_size P) @ [length files mod batch_size P]"
proof -
  let ?b = "batch_size P"
  let ?sl = "\<lambda>q. take ?b (drop (q * ?b) files)"
  let ?qs = "[0..<Suc (length files div ?b)]"
  let ?bs = "map (\<lambda>q. (map smp (?sl q), map lbl (?sl q))) ?qs"
  have run: "gen_list P (length files div ?b + 2) (gen_init P files g) = Some (Inr ?bs)"
    using sp ld b by (intro gen_list_single_pass) simp_all
  have "concat (map fst ?bs) = concat (map (map smp) (map ?sl ?qs))"
    by (simp add: comp_def)
  also have "\<dots> = map smp (concat (map ?sl ?qs))" by (simp only: map_concat)
  also have "\<dots> = map smp files" by (simp only: concat_slices_all [OF b])
  finally have c1: "concat (map fst ?bs) = map smp files" .
  have "concat (map snd ?bs) = concat (map (map lbl) (map ?sl ?qs))"
    by (simp add: comp_def)
  also have "\<dots> = map lbl (concat (map ?sl ?qs))" by (simp only: map_concat)
  also have "\<dots> = map lbl files" by (simp only: concat_slices_all [OF b])
  finally have c2: "concat (map snd ?bs) = map lbl files" .
  have l1: "map (\<lambda>x. length (fst x)) ?bs = replicate (length files div ?b) ?b @ [length files mod ?b]"
    using lengths_slices [OF b, of files] by (simp add: comp_def del: upt_Suc length_take length_drop)
  have l2: "map (\<lambda>x. length (snd x)) ?bs = replicate (length files div ?b) ?b @ [length files mod ?b]"
    using lengths_slices [OF b, of files] by (simp add: comp_def del: upt_Suc length_take length_drop)
  show ?thesis by (rule exI [of _ ?bs]) (intro conjI run c1 c2 l1 l2)
qed

theorem single_pass_batches_witness:
  "\<exists>bs. gen_list (example_params 4 False) 4
              (gen_init (example_params 4 False) [0, 1, 2, 3, 4, 5, 6, 7, 8, 9] ()) = Some (Inr bs) \<and>
        concat (map fst bs) = [0, 1, 2, 3, 4, 5, 6, 7, 8, 9] \<and>
        map (\<lambda>x. length (fst x)) bs = [4, 4, 2]"
proof -
  let ?P = "example_params 4 False"
  let ?fs = "[0, 1, 2, 3, 4, 5, 6, 7, 8, 9 :: nat]"
  have ne: "?fs \<noteq> []" by simp
  have b: "0 < batch_size ?P" by (simp add: example_params_def)
  have sp: "\<not> shuffle_and_repeat ?P" by (simp add: example_params_def)
  have ld: "\<And>f. f \<in> set ?fs \<Longrightarrow> load_row ?P f = Inr (id f, (\<lambda>f. f + 100) f)"
    by (simp add: example_params_def)
  have n: "length ?fs div batch_size ?P + 2 = 4" by (simp add: example_params_def)
  have d: "length ?fs div batch_size ?P = 2" by (simp add: example_params_def)
  have md: "length ?fs mod batch_size ?P = 2" by (simp add: example_params_def)
  have bp: "batch_size ?P = 4" by (simp add: example_params_def)
  have r: "replicate (length ?fs div batch_size ?P) (batch_size ?P) @ [length ?fs mod batch_size ?P]
           = [4, 4, 2]"
    unfolding d md bp by (simp add: numeral_2_eq_2)
  from single_pass_batches [OF ne b sp ld, where g = "()"]
  obtain bs where
    A: "gen_list ?P (length ?fs div batch_size ?P + 2) (gen_init ?P ?fs ()) = Some (Inr bs)" and
    B: "concat (map fst bs) = map id ?fs" and
    C: "map (\<lambda>x. length (fst x)) bs =
          replicate (length ?fs div batch_size ?P) (batch_size ?P) @ [length ?fs mod batch_size ?P]"
    by blast
  have A': "gen_list ?P 4 (gen_init ?P ?fs ()) = Some (Inr bs)" using A unfolding n .
  have B': "concat (map fst bs) = ?fs" using B by (simp only: list.map id_apply)
  have C': "map (\<lambda>x. length (fst x)) bs = [4, 4, 2]" using C unfolding r .
  show ?thesis by (rule exI [of _ bs]) (intro conjI A' B' C')
qed

text \<open>
  C1 as stated fails where the number of files is a multiple of the batch size: for 8 files
  and batch size 4 the two full batches are followed by a third batch, which has no rows,
  before the generator stops.
\<close>

theorem single_pass_trailing_batch_counterexample:
  "gen_list (example_params 4 False) 4
     (gen_init (example_params 4 False) [0, 1, 2, 3, 4, 5, 6, 7] ()) =
   Some (Inr [([0, 1, 2, 3], [100, 101, 102, 103]), ([4, 5, 6, 7], [104, 105, 106, 107]),
              ([], [])])"
  by code_simp

text \<open>
  C9. In single-pass mode, when the length of the non-empty file list is a multiple of the
  batch size, the generator yields the full batches (at least one), holding the rows of all
  files in order, then one more batch with no rows in either matrix, and then stops.
\<close>

theorem single_pass_exact_multiple:
  assumes ne: "files \<noteq> []"
    and b: "0 < batch_size P"
    and sp: "\<not> shuffle_and_repeat P"
    and ld: "\<And>f. f \<in> set files \<Longrightarrow> load_row P f = Inr (smp f, lbl f)"
    and ex: "length files mod batch_size P = 0"
  shows "\<exists>bs. gen_list P (length files div batch_size P + 2) (gen_init P files g)
              = Some (Inr (bs @ [([], [])])) \<and>
           length bs = length files div batch_size P \<and> 0 < length bs \<and>
           (\<forall>x\<in>set bs. length (fst x) = batch_size P \<and> length (snd x) = batch_size P) \<and>
           concat (map fst bs) = map smp files \<and> concat (map snd bs) = map lbl files"
proof -
  let ?b = "batch_size P"
  let ?m = "length files div ?b"
  let ?sl = "\<lambda>q. take ?b (drop (q * ?b) files)"
  let ?B = "\<lambda>q. (map smp (?sl q), map lbl (?sl q))"
  let ?bs = "map ?B [0..<?m]"
  have mb: "?m * ?b = length files" using ex by (simp add: mod_0_imp_dvd)
  have last: "?B ?m = ([], [])" by (simp add: mb)
  have run: "gen_list P (?m + 2) (gen_init P files g) = Some (Inr (?bs @ [([], [])]))"
    using gen_list_single_pass [OF sp ld b, where k = "?m + 2" and g = g] last by (simp del: length_take length_drop)
  have pos: "0 < ?m"
  proof (rule ccontr)
    assume "\<not> 0 < ?m"
    then have "length files = 0" using mb by simp
    then show False using ne by simp
  qed
  have full: "\<forall>x\<in>set ?bs. length (fst x) = ?b \<and> length (snd x) = ?b"
    by (auto simp add: length_slice_full simp del: length_take length_drop)
  have "concat (map fst ?bs) = concat (map (map smp) (map ?sl [0..<?m]))"
    by (simp add: comp_def)
  also have "\<dots> = map smp (concat (map ?sl [0..<?m]))" by (simp only: map_concat)
  also have "\<dots> = map smp files" unfolding concat_slices mb by simp
  finally have c1: "concat (map fst ?bs) = map smp files" .
  have "concat (map snd ?bs) = concat (map (map lbl) (map ?sl [0..<?m]))"
    by (simp add: comp_def)
  also have "\<dots> = map lbl (concat (map ?sl [0..<?m]))" by (simp only: map_concat)
  also have "\<dots> = map lbl files" unfolding concat_slices mb by simp
  finally have c2: "concat (map snd ?bs) = map lbl files" .
  have len: "length ?bs = ?m" by simp
  have pos': "0 < length ?bs" using pos by simp
  show ?thesis by (rule exI [of _ ?bs]) (intro conjI run len pos' full c1 c2)
qed


theorem single_pass_exact_multiple_witness:
  "\<exists>bs. gen_list (example_params 4 False) 4
              (gen_init (example_params 4 False) [0, 1, 2, 3, 4, 5, 6, 7] ())
            = Some (Inr (bs @ [([], [])])) \<and>
        length bs = 2 \<and> concat (map fst bs) = [0, 1, 2, 3, 4, 5, 6, 7]"
proof -
  let ?P = "example_params 4 False"
  let ?fs = "[0, 1, 2, 3, 4, 5, 6, 7 :: nat]"
  have ne: "?fs \<noteq> []" by simp
  have b: "0 < batch_size ?P" by (simp add: example_params_def)
  have sp: "\<not> shuffle_and_repeat ?P" by (simp add: example_params_def)
  have ld: "\<And>f. f \<in> set ?fs \<Longrightarrow> load_row ?P f = Inr (id f, (\<lambda>f. f + 100) f)"
    by (simp add: example_params_def)
  have ex: "length ?fs mod batch_size ?P = 0" by (simp add: example_params_def)
  have n: "length ?fs div batch_size ?P + 2 = 4" by (simp add: example_params_def)
  have d: "length ?fs div batch_size ?P = 2" by (simp add: example_params_def)
  from single_pass_exact_multiple [OF ne b sp ld ex, where g = "()"]
  obtain bs where
    A: "gen_list ?P (length ?fs div batch_size ?P + 2) (gen_init ?P ?fs ()) = Some (Inr (bs @ [([], [])]))" and
    B: "length bs = length ?fs div batch_size ?P" and
    C: "concat (map fst bs) = map id ?fs"
    by blast
  have A': "gen_list ?P 4 (gen_init ?P ?fs ()) = Some (Inr (bs @ [([], [])]))" using A unfolding n .
  have B': "length bs = 2" using B unfolding d .
  have C': "concat (map fst bs) = ?fs" using C by (simp only: list.map id_apply)
  show ?thesis by (rule exI [of _ bs]) (intro conjI A' B' C')
qed

subsection \<open>The batch generator, repeating\<close>

lemma pass_mset:
  assumes perm: "\<And>g xs. mset (fst (shuffle_fn P g xs)) = mset xs"
  shows "mset (fst (pass P files g k)) = mset files"
proof (induction k)
  case 0
  show ?case by (simp add: perm)
next
  case (Suc k)
  obtain fs g' where p: "pass P files g k = (fs, g')" by (cases "pass P files g k")
  have "mset (fst (shuffle_fn P g' fs)) = mset fs" by (rule perm)
  then show ?case using Suc p by simp
qed

lemma pass_length:
  assumes perm: "\<And>g xs. mset (fst (shuffle_fn P g xs)) = mset xs"
  shows "length (fst (pass P files g k)) = length files"
  using pass_mset [OF perm, of files g k] by (rule mset_eq_length)

lemma pass_set:
  assumes perm: "\<And>g xs. mset (fst (shuffle_fn P g xs)) = mset xs"
  shows "set (fst (pass P files g k)) = set files"
  using pass_mset [OF perm, of files g k] by (rule mset_eq_setD)

lemma reshuffle_pass:
  "reshuffle P \<lparr>gs_i = i, gs_files = fst (pass P files g k), gs_run = r, gs_rng = snd (pass P files g k)\<rparr>
   = \<lparr>gs_i = 0, gs_files = fst (pass P files g (Suc k)), gs_run = r, gs_rng = snd (pass P files g (Suc k))\<rparr>"
  by (simp add: reshuffle_def split: prod.splits)

lemma file_at_pass:
  assumes "i < length files"
  shows "file_at P files g (k * length files + i) = fst (pass P files g k) ! i"
proof -
  have "(k * length files + i) div length files = k" using assms by (subst div_mult_self3) auto
  moreover have "(k * length files + i) mod length files = i" using assms by simp
  ultimately show ?thesis by (simp only: file_at_def)
qed

lemma for_j_repeat_step:
  assumes rep: "shuffle_and_repeat P"
    and perm: "\<And>g xs. mset (fst (shuffle_fn P g xs)) = mset xs"
    and ld: "\<And>f. f \<in> set files \<Longrightarrow> load_row P f = Inr (smp f, lbl f)"
    and i: "i < length files"
  shows "for_j P (j # js)
           \<lparr>gs_i = i, gs_files = fst (pass P files g k), gs_run = True, gs_rng = snd (pass P files g k)\<rparr> S L =
         for_j P js
           \<lparr>gs_i = Suc i, gs_files = fst (pass P files g k), gs_run = True, gs_rng = snd (pass P files g k)\<rparr>
           (S[j := smp (file_at P files g (k * length files + i))])
           (L[j := lbl (file_at P files g (k * length files + i))])"
proof -
  have len: "length (fst (pass P files g k)) = length files" by (rule pass_length [OF perm])
  have "fst (pass P files g k) ! i \<in> set (fst (pass P files g k))" using i len by simp
  then have "fst (pass P files g k) ! i \<in> set files" by (simp only: pass_set [OF perm])
  then have "load_row P (fst (pass P files g k) ! i) =
      Inr (smp (fst (pass P files g k) ! i), lbl (fst (pass P files g k) ! i))" by (rule ld)
  then show ?thesis using i len rep by (simp add: Let_def file_at_pass)
qed

lemma for_j_repeat_wrap:
  assumes rep: "shuffle_and_repeat P"
    and perm: "\<And>g xs. mset (fst (shuffle_fn P g xs)) = mset xs"
    and n: "0 < length files"
  shows "for_j P (j # js)
           \<lparr>gs_i = length files, gs_files = fst (pass P files g k), gs_run = True,
            gs_rng = snd (pass P files g k)\<rparr> S L =
         for_j P (j # js)
           \<lparr>gs_i = 0, gs_files = fst (pass P files g (Suc k)), gs_run = True,
            gs_rng = snd (pass P files g (Suc k))\<rparr> S L"
proof -
  have len: "length (fst (pass P files g k)) = length files" for k by (rule pass_length [OF perm])
  show ?thesis
    using rep n by (simp add: Let_def reshuffle_pass len del: pass.simps)
qed

lemma for_j_repeat:
  assumes rep: "shuffle_and_repeat P"
    and perm: "\<And>g xs. mset (fst (shuffle_fn P g xs)) = mset xs"
    and ld: "\<And>f. f \<in> set files \<Longrightarrow> load_row P f = Inr (smp f, lbl f)"
    and n: "0 < length files"
  shows "i \<le> length files \<Longrightarrow> j + d = b \<Longrightarrow> length S = b \<Longrightarrow> length L = b \<Longrightarrow>
     \<exists>k' i'. i' \<le> length files \<and> k' * length files + i' = k * length files + i + d \<and>
       for_j P [j..<b]
         \<lparr>gs_i = i, gs_files = fst (pass P files g k), gs_run = True, gs_rng = snd (pass P files g k)\<rparr> S L =
       Inr (\<lparr>gs_i = i', gs_files = fst (pass P files g k'), gs_run = True,
             gs_rng = snd (pass P files g k')\<rparr>,
            take j S @ map (\<lambda>t. smp (file_at P files g t))
                         [k * length files + i..<k * length files + i + d],
            take j L @ map (\<lambda>t. lbl (file_at P files g t))
                         [k * length files + i..<k * length files + i + d])"
proof (induction d arbitrary: i j k S L)
  case 0
  then show ?case by auto
next
  case (Suc d)
  let ?n = "length files"
  let ?st = "\<lambda>k i. \<lparr>gs_i = i, gs_files = fst (pass P files g k), gs_run = True,
                      gs_rng = snd (pass P files g k)\<rparr>"
  have jb: "j < b" using Suc.prems(2) by simp
  then have upt: "[j..<b] = j # [Suc j..<b]" by (rule upt_conv_Cons)
  define k1 where "k1 = (if i < ?n then k else Suc k)"
  define i1 where "i1 = (if i < ?n then i else 0)"
  have i1: "i1 < ?n" using n by (simp add: i1_def)
  have t: "k1 * ?n + i1 = k * ?n + i" using Suc.prems(1) by (simp add: k1_def i1_def)
  have wrap: "for_j P (j # [Suc j..<b]) (?st k i) S L = for_j P (j # [Suc j..<b]) (?st k1 i1) S L"
  proof (cases "i < ?n")
    case True
    then show ?thesis by (simp only: k1_def i1_def if_True)
  next
    case False
    then have "i = ?n" using Suc.prems(1) by simp
    then show ?thesis
      using for_j_repeat_wrap [OF rep perm n, of j "[Suc j..<b]" g k S L]
      by (simp only: k1_def i1_def if_False less_irrefl)
  qed
  let ?x = "smp (file_at P files g (k * ?n + i))"
  let ?y = "lbl (file_at P files g (k * ?n + i))"
  have step: "for_j P [j..<b] (?st k i) S L =
              for_j P [Suc j..<b] (?st k1 (Suc i1)) (S[j := ?x]) (L[j := ?y])"
    unfolding upt wrap
    using for_j_repeat_step [OF rep perm ld i1, of j "[Suc j..<b]" g k1 S L]
    by (simp only: t)
  have "\<exists>k' i'. i' \<le> ?n \<and> k' * ?n + i' = k1 * ?n + Suc i1 + d \<and>
       for_j P [Suc j..<b] (?st k1 (Suc i1)) (S[j := ?x]) (L[j := ?y]) =
       Inr (?st k' i',
            take (Suc j) (S[j := ?x]) @ map (\<lambda>t. smp (file_at P files g t))
                         [k1 * ?n + Suc i1..<k1 * ?n + Suc i1 + d],
            take (Suc j) (L[j := ?y]) @ map (\<lambda>t. lbl (file_at P files g t))
                         [k1 * ?n + Suc i1..<k1 * ?n + Suc i1 + d])"
    using i1 Suc.prems by (intro Suc.IH) simp_all
  then obtain k' i' where le: "i' \<le> ?n" and pos: "k' * ?n + i' = k1 * ?n + Suc i1 + d"
    and run: "for_j P [Suc j..<b] (?st k1 (Suc i1)) (S[j := ?x]) (L[j := ?y]) =
       Inr (?st k' i',
            take (Suc j) (S[j := ?x]) @ map (\<lambda>t. smp (file_at P files g t))
                         [k1 * ?n + Suc i1..<k1 * ?n + Suc i1 + d],
            take (Suc j) (L[j := ?y]) @ map (\<lambda>t. lbl (file_at P files g t))
                         [k1 * ?n + Suc i1..<k1 * ?n + Suc i1 + d])"
    by blast
  have t1: "k1 * ?n + Suc i1 = Suc (k * ?n + i)" using t by simp
  have tS: "take (Suc j) (S[j := ?x]) = take j S @ [?x]"
    using jb Suc.prems(3) by (simp add: take_Suc_conv_app_nth)
  have tL: "take (Suc j) (L[j := ?y]) = take j L @ [?y]"
    using jb Suc.prems(4) by (simp add: take_Suc_conv_app_nth)
  have u: "[k * ?n + i..<k * ?n + i + Suc d] = (k * ?n + i) # [Suc (k * ?n + i)..<Suc (k * ?n + i) + d]"
    by (simp add: upt_conv_Cons)
  have pos': "k' * ?n + i' = k * ?n + i + Suc d" using pos t1 by simp
  have run': "for_j P [j..<b] (?st k i) S L =
       Inr (?st k' i',
            take j S @ map (\<lambda>t. smp (file_at P files g t)) [k * ?n + i..<k * ?n + i + Suc d],
            take j L @ map (\<lambda>t. lbl (file_at P files g t)) [k * ?n + i..<k * ?n + i + Suc d])"
    unfolding step run t1 tS tL u by simp
  show ?case using le pos' run' by blast
qed

lemma gen_next_repeat:
  assumes rep: "shuffle_and_repeat P"
    and perm: "\<And>g xs. mset (fst (shuffle_fn P g xs)) = mset xs"
    and ld: "\<And>f. f \<in> set files \<Longrightarrow> load_row P f = Inr (smp f, lbl f)"
    and n: "0 < length files"
    and i: "i \<le> length files"
  shows "\<exists>k' i'. i' \<le> length files \<and>
       k' * length files + i' = k * length files + i + batch_size P \<and>
       gen_next P \<lparr>gs_i = i, gs_files = fst (pass P files g k), gs_run = True,
                   gs_rng = snd (pass P files g k)\<rparr> =
       Inr ((map (\<lambda>t. smp (file_at P files g t))
               [k * length files + i..<k * length files + i + batch_size P],
             map (\<lambda>t. lbl (file_at P files g t))
               [k * length files + i..<k * length files + i + batch_size P]),
            \<lparr>gs_i = i', gs_files = fst (pass P files g k'), gs_run = True,
             gs_rng = snd (pass P files g k')\<rparr>)"
proof -
  let ?b = "batch_size P"
  have "\<exists>k' i'. i' \<le> length files \<and> k' * length files + i' = k * length files + i + ?b \<and>
       for_j P [0..<?b]
         \<lparr>gs_i = i, gs_files = fst (pass P files g k), gs_run = True, gs_rng = snd (pass P files g k)\<rparr>
         (replicate ?b (zero_sample P)) (replicate ?b (zero_label P)) =
       Inr (\<lparr>gs_i = i', gs_files = fst (pass P files g k'), gs_run = True,
             gs_rng = snd (pass P files g k')\<rparr>,
            take 0 (replicate ?b (zero_sample P)) @ map (\<lambda>t. smp (file_at P files g t))
                         [k * length files + i..<k * length files + i + ?b],
            take 0 (replicate ?b (zero_label P)) @ map (\<lambda>t. lbl (file_at P files g t))
                         [k * length files + i..<k * length files + i + ?b])"
    using rep perm ld n i by (intro for_j_repeat) simp_all
  then obtain k' i' where "i' \<le> length files"
    and "k' * length files + i' = k * length files + i + ?b"
    and "for_j P [0..<?b]
         \<lparr>gs_i = i, gs_files = fst (pass P files g k), gs_run = True, gs_rng = snd (pass P files g k)\<rparr>
         (replicate ?b (zero_sample P)) (replicate ?b (zero_label P)) =
       Inr (\<lparr>gs_i = i', gs_files = fst (pass P files g k'), gs_run = True,
             gs_rng = snd (pass P files g k')\<rparr>,
            map (\<lambda>t. smp (file_at P files g t)) [k * length files + i..<k * length files + i + ?b],
            map (\<lambda>t. lbl (file_at P files g t)) [k * length files + i..<k * length files + i + ?b])"
    by auto
  then show ?thesis by (intro exI [of _ k'] exI [of _ i']) (simp add: gen_next_def)
qed

lemma gen_take_repeat:
  assumes rep: "shuffle_and_repeat P"
    and perm: "\<And>g xs. mset (fst (shuffle_fn P g xs)) = mset xs"
    and ld: "\<And>f. f \<in> set files \<Longrightarrow> load_row P f = Inr (smp f, lbl f)"
    and n: "0 < length files"
  shows "i \<le> length files \<Longrightarrow>
     \<exists>st. gen_take P m \<lparr>gs_i = i, gs_files = fst (pass P files g k), gs_run = True,
                         gs_rng = snd (pass P files g k)\<rparr> =
       Inr (map (\<lambda>q. (map (\<lambda>t. smp (file_at P files g t))
                         [k * length files + i + q * batch_size P..<
                          k * length files + i + q * batch_size P + batch_size P],
                       map (\<lambda>t. lbl (file_at P files g t))
                         [k * length files + i + q * batch_size P..<
                          k * length files + i + q * batch_size P + batch_size P]))
              [0..<m], st)"
proof (induction m arbitrary: i k)
  case 0
  show ?case by simp
next
  case (Suc m)
  let ?b = "batch_size P"
  let ?n = "length files"
  let ?B = "\<lambda>t q. (map (\<lambda>t. smp (file_at P files g t)) [t + q * ?b..<t + q * ?b + ?b],
                    map (\<lambda>t. lbl (file_at P files g t)) [t + q * ?b..<t + q * ?b + ?b])"
  let ?st = "\<lambda>k i. \<lparr>gs_i = i, gs_files = fst (pass P files g k), gs_run = True,
                      gs_rng = snd (pass P files g k)\<rparr>"
  from gen_next_repeat [OF rep perm ld n Suc.prems, where g = g and k = k]
  obtain k' i' where le: "i' \<le> ?n" and pos: "k' * ?n + i' = k * ?n + i + ?b"
    and nx: "gen_next P (?st k i) =
       Inr ((map (\<lambda>t. smp (file_at P files g t)) [k * ?n + i..<k * ?n + i + ?b],
             map (\<lambda>t. lbl (file_at P files g t)) [k * ?n + i..<k * ?n + i + ?b]), ?st k' i')"
    by blast
  from Suc.IH [OF le, where k = k'] obtain st where
    tk: "gen_take P m (?st k' i') = Inr (map (?B (k' * ?n + i')) [0..<m], st)"
    by blast
  have shift: "map (?B (k' * ?n + i')) [0..<m] = map (?B (k * ?n + i)) (map Suc [0..<m])"
  proof -
    have e: "k' * ?n + i' + q * ?b = k * ?n + i + Suc q * ?b" for q unfolding pos by simp
    show ?thesis by (simp only: map_map comp_def e)
  qed
  have "gen_take P (Suc m) (?st k i) =
        Inr (?B (k * ?n + i) 0 # map (?B (k * ?n + i)) (map Suc [0..<m]), st)"
    by (simp add: nx tk shift del: upt_Suc)
  also have "?B (k * ?n + i) 0 # map (?B (k * ?n + i)) (map Suc [0..<m]) =
        map (?B (k * ?n + i)) [0..<Suc m]"
    by (simp only: map_Suc_upt upt_conv_Cons [of 0 "Suc _"] list.map zero_less_Suc)
  finally show ?case by blast
qed

lemma gen_init_repeat:
  "shuffle_and_repeat P \<Longrightarrow>
   gen_init P files g = \<lparr>gs_i = 0, gs_files = fst (pass P files g 0), gs_run = True,
                          gs_rng = snd (pass P files g 0)\<rparr>"
  by (simp add: gen_init_def split: prod.splits)

text \<open>
  C2. In repeating mode, for a non-empty file list whose files all load and a shuffle that
  permutes its argument: every number \<open>m\<close> of calls of \<open>next()\<close> yields \<open>m\<close> batches (the
  generator never stops); row \<open>t\<close> of the stream of rows comes from position \<open>t mod n\<close> of
  the list after \<open>t div n\<close> reshuffles, so that the files are read pass by pass, the list
  being shuffled once at the start and again each time it is exhausted; each of these
  lists is a permutation of the files, so each pass reads every file exactly once. Hence
  when the batch size is at least \<open>n\<close> (3 files, batch size 5), the first \<open>n\<close> rows of the
  first batch are the rows of the first shuffled list, each file once.
\<close>

theorem repeating_batches:
  assumes ne: "files \<noteq> []"
    and rep: "shuffle_and_repeat P"
    and perm: "\<And>g xs. mset (fst (shuffle_fn P g xs)) = mset xs"
    and ld: "\<And>f. f \<in> set files \<Longrightarrow> load_row P f = Inr (smp f, lbl f)"
  shows "(\<forall>m. \<exists>st. gen_take P m (gen_init P files g) =
            Inr (map (\<lambda>q. (map (\<lambda>t. smp (file_at P files g t))
                              [q * batch_size P..<q * batch_size P + batch_size P],
                            map (\<lambda>t. lbl (file_at P files g t))
                              [q * batch_size P..<q * batch_size P + batch_size P]))
                   [0..<m], st)) \<and>
         (\<forall>k. mset (fst (pass P files g k)) = mset files) \<and>
         (length files \<le> batch_size P \<longrightarrow>
            (\<exists>S L st. gen_next P (gen_init P files g) = Inr ((S, L), st) \<and>
               take (length files) S = map smp (fst (shuffle_fn P g files)) \<and>
               mset (take (length files) S) = mset (map smp files)))"
proof (intro conjI allI impI)
  have n: "0 < length files" using ne by simp
  let ?st0 = "\<lparr>gs_i = 0, gs_files = fst (pass P files g 0), gs_run = True,
                gs_rng = snd (pass P files g 0)\<rparr>"
  show "\<exists>st. gen_take P m (gen_init P files g) =
            Inr (map (\<lambda>q. (map (\<lambda>t. smp (file_at P files g t))
                              [q * batch_size P..<q * batch_size P + batch_size P],
                            map (\<lambda>t. lbl (file_at P files g t))
                              [q * batch_size P..<q * batch_size P + batch_size P]))
                   [0..<m], st)" for m
    using gen_take_repeat [OF rep perm ld n, where i = 0 and k = 0 and g = g and m = m]
    unfolding gen_init_repeat [OF rep] by simp
  show "mset (fst (pass P files g k)) = mset files" for k
    by (rule pass_mset [OF perm])
  show "\<exists>S L st. gen_next P (gen_init P files g) = Inr ((S, L), st) \<and>
               take (length files) S = map smp (fst (shuffle_fn P g files)) \<and>
               mset (take (length files) S) = mset (map smp files)"
    if le: "length files \<le> batch_size P"
  proof -
    let ?b = "batch_size P"
    let ?S = "map (\<lambda>t. smp (file_at P files g t)) [0..<?b]"
    let ?fs0 = "fst (shuffle_fn P g files)"
    from gen_next_repeat [OF rep perm ld n, where i = 0 and k = 0 and g = g]
    obtain L st where nx: "gen_next P ?st0 = Inr ((?S, L), st)" by auto
    have len0: "length ?fs0 = length files" using perm [of g files] by (rule mset_eq_length)
    have "take (length files) ?S = map (\<lambda>t. smp (file_at P files g t)) [0..<length files]"
      using le by (simp add: take_map min_def)
    also have "\<dots> = map (\<lambda>t. smp (?fs0 ! t)) [0..<length files]"
      using file_at_pass [of _ files P g 0] by simp
    also have "\<dots> = map smp (map (\<lambda>t. ?fs0 ! t) [0..<length ?fs0])"
      unfolding len0 by simp
    also have "\<dots> = map smp ?fs0" by (simp only: map_nth)
    finally have tk: "take (length files) ?S = map smp ?fs0" .
    have "mset (map smp ?fs0) = mset (map smp files)" using perm [of g files] by simp
    then have ms: "mset (take (length files) ?S) = mset (map smp files)" unfolding tk .
    have "gen_next P (gen_init P files g) = Inr ((?S, L), st)"
      unfolding gen_init_repeat [OF rep] by (rule nx)
    then show ?thesis using tk ms by blast
  qed
qed

theorem repeating_batches_witness:
  "\<exists>st. gen_take (example_params 5 True) 1 (gen_init (example_params 5 True) [0, 1, 2] ()) =
           Inr ([([2, 1, 0, 0, 1], [102, 101, 100, 100, 101])], st)"
proof -
  let ?P = "example_params 5 True"
  let ?fs = "[0, 1, 2 :: nat]"
  have ne: "?fs \<noteq> []" by simp
  have rep: "shuffle_and_repeat ?P" by (simp add: example_params_def)
  have perm: "\<And>g xs. mset (fst (shuffle_fn ?P g xs)) = mset xs" by (simp add: example_params_def)
  have ld: "\<And>f. f \<in> set ?fs \<Longrightarrow> load_row ?P f = Inr (id f, (\<lambda>f. f + 100) f)"
    by (simp add: example_params_def)
  have bp: "batch_size ?P = 5" by (simp add: example_params_def)
  have f: "map (file_at ?P ?fs ()) [0, 1, 2, 3, 4] = [2, 1, 0, 0, 1]"
    by (simp add: file_at_def example_params_def)
  have u: "[0..<5] = [0, 1, 2, 3, 4]" by (simp add: upt_rec)
  from repeating_batches [OF ne rep perm ld, where g = "()"]
  have "\<exists>st. gen_take ?P 1 (gen_init ?P ?fs ()) =
            Inr (map (\<lambda>q. (map (\<lambda>t. id (file_at ?P ?fs () t))
                              [q * batch_size ?P..<q * batch_size ?P + batch_size ?P],
                            map (\<lambda>t. file_at ?P ?fs () t + 100)
                              [q * batch_size ?P..<q * batch_size ?P + batch_size ?P]))
                   [0..<1], st)"
    by blast
  then obtain st where "gen_take ?P 1 (gen_init ?P ?fs ()) =
            Inr ([(map (\<lambda>t. id (file_at ?P ?fs () t)) [0..<5],
                   map (\<lambda>t. file_at ?P ?fs () t + 100) [0..<5])], st)"
    unfolding bp by auto
  moreover have "map (\<lambda>t. id (file_at ?P ?fs () t)) [0..<5] = [2, 1, 0, 0, 1]"
    using f unfolding u by simp
  moreover have "map (\<lambda>t. file_at ?P ?fs () t + 100) [0..<5] = [102, 101, 100, 100, 101]"
    using f unfolding u by simp
  ultimately show ?thesis by auto
qed

subsection \<open>Grid reconstruction\<close>

lemma look_ahead_takeWhile:
  assumes K: "\<And>f. f \<in> set fs \<Longrightarrow> file_key sep f = Inr (key f)"
  shows "j + d = length fs \<Longrightarrow>
     look_ahead sep fs k [j..<length fs] i split =
       Inr (i + length (takeWhile (\<lambda>f. k = key f) (drop j fs)),
            split @ takeWhile (\<lambda>f. k = key f) (drop j fs))"
proof (induction d arbitrary: j i split)
  case 0
  then show ?case by simp
next
  case (Suc d)
  have j: "j < length fs" using Suc.prems by simp
  then have upt: "[j..<length fs] = j # [Suc j..<length fs]" by (rule upt_conv_Cons)
  have dr: "drop j fs = fs ! j # drop (Suc j) fs" using j by (rule Cons_nth_drop_Suc [symmetric])
  have kj: "file_key sep (fs ! j) = Inr (key (fs ! j))" using j by (intro K) simp
  show ?case
  proof (cases "k = key (fs ! j)")
    case True
    have "look_ahead sep fs k [Suc j..<length fs] (i + 1) (split @ [fs ! j]) =
       Inr (i + 1 + length (takeWhile (\<lambda>f. k = key f) (drop (Suc j) fs)),
            (split @ [fs ! j]) @ takeWhile (\<lambda>f. k = key f) (drop (Suc j) fs))"
      using Suc.prems by (intro Suc.IH) simp
    then show ?thesis unfolding upt dr using True kj by simp
  next
    case False
    then show ?thesis unfolding upt dr using kj by simp
  qed
qed

lemma measure_point_split_runs:
  assumes K: "\<And>f. f \<in> set fs \<Longrightarrow> file_key sep f = Inr (key f)"
  shows "i \<le> length fs \<Longrightarrow> measure_point_split sep fs i acc = Inr (acc @ runs key (drop i fs))"
proof (induction "length fs - i" arbitrary: i acc rule: less_induct)
  case less
  show ?case
  proof (cases "i < length fs")
    case False
    then show ?thesis by (subst measure_point_split.simps) simp
  next
    case True
    let ?k = "key (fs ! i)"
    let ?P = "\<lambda>f. ?k = key f"
    let ?rest = "drop (Suc i) fs"
    let ?tw = "fs ! i # takeWhile ?P ?rest"
    have dr: "drop i fs = fs ! i # ?rest" using True by (rule Cons_nth_drop_Suc [symmetric])
    have kj: "file_key sep (fs ! i) = Inr ?k" using True by (intro K) simp
    have tw: "takeWhile ?P (drop i fs) = ?tw" unfolding dr by simp
    have la: "look_ahead sep fs ?k [i..<length fs] i [] = Inr (i + length ?tw, ?tw)"
      using look_ahead_takeWhile [of fs sep key i "length fs - i" ?k i "[]", OF K] True
      unfolding tw by simp
    have "length (takeWhile ?P ?rest) \<le> length ?rest" by (rule length_takeWhile_le)
    then have le: "i + length ?tw \<le> length fs" using True by simp
    have dw: "drop (i + length ?tw) fs = dropWhile ?P ?rest"
    proof -
      have "drop (i + length ?tw) fs = drop (length (takeWhile ?P ?rest)) ?rest"
        by (simp add: add.commute)
      then show ?thesis by (simp only: dropWhile_eq_drop)
    qed
    have "measure_point_split sep fs (i + length ?tw) (acc @ [?tw]) =
          Inr ((acc @ [?tw]) @ runs key (drop (i + length ?tw) fs))"
      using True le by (intro less.hyps) simp_all
    then have rec: "measure_point_split sep fs (i + length ?tw) (acc @ [?tw]) =
          Inr (acc @ runs key (drop i fs))"
      unfolding dw dr by simp
    show ?thesis
      by (subst measure_point_split.simps) (simp only: True if_True kj la sum.case prod.case rec)
  qed
qed

lemma fill_mp_rows:
  assumes S: "\<And>f. f \<in> set fs \<Longrightarrow> py_int (shot_token f) = Inr (shot f)"
    and F: "\<And>f. f \<in> set fs \<Longrightarrow> fits_int64 ((shot f - 1) div 8)"
  shows "set mp \<subseteq> set fs \<Longrightarrow> i + length mp \<le> length tm \<Longrightarrow>
     fill_mp py_int mp i j tm =
       Inr (i + length mp,
            take i tm @ map (\<lambda>f. [int j, (shot f - 1) div 8, (shot f - 1) mod 8]) mp
              @ drop (i + length mp) tm)"
proof (induction mp arbitrary: i tm)
  case Nil
  then show ?case by simp
next
  case (Cons f mp)
  let ?row = "\<lambda>f. [int j, (shot f - 1) div 8, (shot f - 1) mod 8]"
  have f: "f \<in> set fs" using Cons.prems(1) by simp
  have sh: "shot_id_of py_int f = Inr (shot f - 1)" by (simp add: shot_id_of_def S [OF f])
  have i: "i < length tm" using Cons.prems(2) by simp
  have "fill_mp py_int mp (i + 1) j (tm[i := ?row f]) =
       Inr (i + 1 + length mp,
            take (i + 1) (tm[i := ?row f]) @ map ?row mp @ drop (i + 1 + length mp) (tm[i := ?row f]))"
    using Cons.prems by (intro Cons.IH) simp_all
  moreover have "take (i + 1) (tm[i := ?row f]) = take i tm @ [?row f]"
    using i by (simp add: take_Suc_conv_app_nth)
  moreover have "drop (i + 1 + length mp) (tm[i := ?row f]) = drop (i + 1 + length mp) tm"
    by simp
  ultimately show ?case using i sh F [OF f] by simp
qed

lemma run_ids_block:
  "\<forall>x\<in>set ks. x = k \<Longrightarrow> ds = [] \<or> hd ds \<noteq> k \<Longrightarrow>
   run_ids j (k # ks @ ds) = replicate (Suc (length ks)) j @ run_ids (Suc j) ds"
proof (induction ks)
  case Nil
  then show ?case by (cases ds) auto
next
  case (Cons a ks)
  then show ?case by simp
qed

lemma length_run_ids: "length (run_ids j ks) = length ks"
  by (induction j ks rule: run_ids.induct) simp_all

lemma fill_all_runs:
  assumes S: "\<And>f. f \<in> set fs \<Longrightarrow> py_int (shot_token f) = Inr (shot f)"
    and F: "\<And>f. f \<in> set fs \<Longrightarrow> fits_int64 ((shot f - 1) div 8)"
  shows "set xs \<subseteq> set fs \<Longrightarrow> i + length xs \<le> length tm \<Longrightarrow>
     fill_all py_int (runs key xs) i j tm =
       Inr (take i tm
            @ map2 (\<lambda>r f. [int r, (shot f - 1) div 8, (shot f - 1) mod 8]) (run_ids j (map key xs)) xs
            @ drop (i + length xs) tm)"
proof (induction key xs arbitrary: i j tm rule: runs.induct)
  case (1 key)
  then show ?case by simp
next
  case (2 key x xs)
  let ?P = "\<lambda>y. key x = key y"
  let ?tw = "takeWhile ?P xs"
  let ?dw = "dropWhile ?P xs"
  let ?g = "x # ?tw"
  let ?row = "\<lambda>r f. [int r, (shot f - 1) div 8, (shot f - 1) mod 8]"
  have split: "xs = ?tw @ ?dw" by simp
  have len: "length xs = length ?tw + length ?dw"
    by (metis length_append takeWhile_dropWhile_id)
  have sub_g: "set ?g \<subseteq> set fs" using "2.prems"(1) set_takeWhileD by fastforce
  have sub_d: "set ?dw \<subseteq> set fs" using "2.prems"(1) set_dropWhileD by fastforce
  have le_g: "i + length ?g \<le> length tm" using "2.prems"(2) len by simp
  let ?tm' = "take i tm @ map (?row j) ?g @ drop (i + length ?g) tm"
  have mp: "fill_mp py_int ?g i j tm = Inr (i + length ?g, ?tm')"
    using S F sub_g le_g by (rule fill_mp_rows)
  have ltm': "length ?tm' = length tm" using le_g by simp
  have le_d: "i + length ?g + length ?dw \<le> length ?tm'"
    unfolding ltm' using "2.prems"(2) len by simp
  have ih: "fill_all py_int (runs key ?dw) (i + length ?g) (j + 1) ?tm' =
       Inr (take (i + length ?g) ?tm'
            @ map2 ?row (run_ids (j + 1) (map key ?dw)) ?dw
            @ drop (i + length ?g + length ?dw) ?tm')"
    using sub_d le_d by (rule "2.IH")
  have tk: "take (i + length ?g) ?tm' = take i tm @ map (?row j) ?g"
    using le_g by simp
  have dp: "drop (i + length ?g + length ?dw) ?tm' = drop (i + length (x # xs)) tm"
    using le_g len by (simp add: ac_simps)
  have ids: "run_ids j (map key (x # xs)) =
             replicate (length ?g) j @ run_ids (j + 1) (map key ?dw)"
  proof -
    have "run_ids j (key x # map key ?tw @ map key ?dw) =
          replicate (Suc (length (map key ?tw))) j @ run_ids (Suc j) (map key ?dw)"
    proof (rule run_ids_block)
      show "\<forall>k\<in>set (map key ?tw). k = key x" by (auto dest: set_takeWhileD)
      show "map key ?dw = [] \<or> hd (map key ?dw) \<noteq> key x"
      proof (cases "?dw = []")
        case True
        then show ?thesis by simp
      next
        case False
        then have "\<not> ?P (hd ?dw)" by (rule hd_dropWhile)
        then show ?thesis using False by (simp add: hd_map)
      qed
    qed
    moreover have "key x # map key ?tw @ map key ?dw = map key (x # ?tw @ ?dw)"
      by (simp only: list.map map_append)
    moreover have "x # ?tw @ ?dw = x # xs" by (simp only: takeWhile_dropWhile_id)
    ultimately have "run_ids j (map key (x # xs)) =
          replicate (Suc (length (map key ?tw))) j @ run_ids (Suc j) (map key ?dw)"
      by (simp only:)
    then show ?thesis by simp
  qed
  have z1: "map2 ?row (run_ids j (map key (x # xs))) (x # xs) =
            map2 ?row (replicate (length ?g) j @ run_ids (j + 1) (map key ?dw)) (?g @ ?dw)"
    by (simp only: ids append_Cons takeWhile_dropWhile_id)
  have z2: "zip (replicate (length ?g) j @ run_ids (j + 1) (map key ?dw)) (?g @ ?dw) =
          zip (replicate (length ?g) j) ?g @ zip (run_ids (j + 1) (map key ?dw)) ?dw"
    by (rule zip_append) (simp only: length_replicate)
  have z3: "map (\<lambda>(r, f). ?row r f) (zip (replicate (length ?g) j) ?g) = map (?row j) ?g"
    by (simp only: zip_replicate1 map_map comp_def prod.case take_all order_refl)
  have z: "map2 ?row (run_ids j (map key (x # xs))) (x # xs) =
           map (?row j) ?g @ map2 ?row (run_ids (j + 1) (map key ?dw)) ?dw"
    by (simp only: z1 z2 map_append z3)
  have "fill_all py_int (runs key (x # xs)) i j tm =
        fill_all py_int (runs key ?dw) (i + length ?g) (j + 1) ?tm'"
    by (simp only: runs.simps fill_all.simps mp sum.case prod.case)
  also have "\<dots> = Inr ((take i tm @ map (?row j) ?g)
            @ map2 ?row (run_ids (j + 1) (map key ?dw)) ?dw
            @ drop (i + length (x # xs)) tm)"
    by (simp only: ih tk dp)
  also have "\<dots> = Inr (take i tm @ map2 ?row (run_ids j (map key (x # xs))) (x # xs)
            @ drop (i + length (x # xs)) tm)"
    by (simp only: z append_assoc)
  finally show ?case .
qed

lemma transition_matrix_parsed:
  assumes K: "\<And>f. f \<in> set paths \<Longrightarrow> file_key sep f = Inr (key f)"
    and S: "\<And>f. f \<in> set paths \<Longrightarrow> py_int (shot_token f) = Inr (shot f)"
    and F: "\<And>f. f \<in> set paths \<Longrightarrow> fits_int64 ((shot f - 1) div 8)"
  shows "\<exists>tm. get_64shot_transition_matrix sep py_int paths = Inr tm \<and>
           length tm = length paths \<and>
           (\<forall>r<length paths.
              tm ! r = [int (run_ids 0 (map key paths) ! r),
                        (shot (paths ! r) - 1) div 8, (shot (paths ! r) - 1) mod 8])"
proof -
  let ?row = "\<lambda>r f. [int r, (shot f - 1) div 8, (shot f - 1) mod 8]"
  let ?ids = "run_ids 0 (map key paths)"
  let ?tm = "map2 ?row ?ids paths"
  let ?z = "replicate (length paths) [0, 0, 0 :: int]"
  have sp: "measure_point_split sep paths 0 [] = Inr ([] @ runs key (drop 0 paths))"
    by (rule measure_point_split_runs [where fs = paths and sep = sep and key = key, OF K]) simp_all
  have fa: "fill_all py_int (runs key paths) 0 0 ?z =
       Inr (take 0 ?z @ ?tm @ drop (0 + length paths) ?z)"
    by (rule fill_all_runs [where fs = paths and py_int = py_int and shot = shot, OF S F]) simp_all
  have g: "get_64shot_transition_matrix sep py_int paths = Inr ?tm"
    using sp fa by (simp add: get_64shot_transition_matrix_def)
  have l: "length ?tm = length paths" by (simp add: length_run_ids)
  have r: "?tm ! r = ?row (?ids ! r) (paths ! r)" if "r < length paths" for r
    using that by (simp add: length_run_ids)
  show ?thesis using g l r by blast
qed

lemma split_on_nonempty: "split_on c s \<noteq> []"
  by (induction s) (auto split: list.splits)

lemma split_on_no_sep: "c \<notin> set s \<Longrightarrow> split_on c s = [s]"
  by (induction s) auto

lemma split_on_append_sep: "split_on c (p @ c # t) = split_on c p @ split_on c t"
proof (induction p)
  case Nil
  show ?case by simp
next
  case (Cons x p)
  obtain w ws where sp: "split_on c p = w # ws"
    using split_on_nonempty [of c p] by (cases "split_on c p") auto
  show ?case using Cons sp by simp
qed

lemma split_on_field: "c \<notin> set a \<Longrightarrow> split_on c (a @ c # b) = a # split_on c b"
  by (simp add: split_on_append_sep split_on_no_sep)

lemma last_split_on_after: "last (split_on c (p @ c # t)) = last (split_on c t)"
  by (simp add: split_on_append_sep split_on_nonempty)

lemma split_on_append_no_sep:
  "c \<notin> set t \<Longrightarrow> split_on c (p @ t) = butlast (split_on c p) @ [last (split_on c p) @ t]"
proof (induction p)
  case Nil
  then show ?case by (simp add: split_on_no_sep)
next
  case (Cons x p)
  obtain w ws where sp: "split_on c p = w # ws"
    using split_on_nonempty [of c p] by (cases "split_on c p") auto
  show ?case
  proof (cases "x = c")
    case True
    then show ?thesis using Cons sp by (simp add: split_on_nonempty)
  next
    case False
    then show ?thesis using Cons sp by (cases ws) auto
  qed
qed

lemma last_split_on_append:
  "c \<notin> set t \<Longrightarrow> last (split_on c (p @ t)) = last (split_on c p) @ t"
  by (simp add: split_on_append_no_sep)

lemma split_on_file_name:
  assumes "wf_file sep d"
  shows "split_on CHR ''_'' (file_name d) =
         [sf_mineral d, sf_class d, sf_subgroup d, sf_measure_point d, sf_shot d @ sf_ext d]"
  using assms unfolding wf_file_def file_name_def
  by (simp add: split_on_field split_on_no_sep)

lemma file_key_file_path:
  assumes "wf_file sep d"
  shows "file_key sep (file_path sep d) = Inr (sf_mineral d, sf_measure_point d)"
proof -
  have "sep \<notin> set (file_name d)" using assms by (simp add: wf_file_def)
  then have "last (split_on sep (file_path sep d)) = file_name d"
    unfolding file_path_def by (simp add: last_split_on_after split_on_no_sep)
  then show ?thesis
    unfolding file_key_def by (simp add: split_on_file_name [OF assms])
qed

lemma shot_token_file_path:
  assumes "wf_file sep d"
  shows "shot_token (file_path sep d) = sf_shot d"
proof -
  let ?t = "sf_shot d @ sf_ext d"
  let ?q = "sf_dir d @ sep # sf_mineral d @ CHR ''_'' # sf_class d @ CHR ''_'' # sf_subgroup d @
            CHR ''_'' # sf_measure_point d"
  have p: "file_path sep d = ?q @ CHR ''_'' # ?t"
    by (simp add: file_path_def file_name_def)
  have ns: "CHR ''/'' \<notin> set (CHR ''_'' # ?t)" using assms by (simp add: wf_file_def)
  have nu: "CHR ''_'' \<notin> set ?t" using assms by (simp add: wf_file_def)
  have "last (split_on CHR ''/'' (file_path sep d)) = last (split_on CHR ''/'' ?q) @ CHR ''_'' # ?t"
    unfolding p using ns by (rule last_split_on_append)
  then have "last (split_on CHR ''_'' (last (split_on CHR ''/'' (file_path sep d)))) = ?t"
    using nu by (simp add: last_split_on_after split_on_no_sep)
  moreover have "take (length ?t - 4) ?t = sf_shot d" using assms by (simp add: wf_file_def)
  ultimately show ?thesis by (simp only: shot_token_def Let_def)
qed

text \<open>
  C6 (as amended). For a list of \<open>n\<close> paths of files named by the five fields mineral id,
  class, subgroup, measure point and shot number, with a shot number that \<open>int\<close> reads as
  \<open>s\<close> and fits the matrix, the function returns a matrix of \<open>n\<close> rows of three entries. Row
  \<open>r\<close> holds the index of the run of file \<open>r\<close>, where the runs of consecutive files with the
  same pair of mineral id and measure point are numbered from 0, then \<open>(s - 1) div 8\<close> and
  \<open>(s - 1) mod 8\<close>. Shots 1, 9 and 64 of one run give the rows \<open>[mp, 0, 0]\<close>, \<open>[mp, 1, 0]\<close>,
  \<open>[mp, 7, 7]\<close>; a file of another mineral with the same measure point starts the next run.
\<close>

theorem transition_matrix_rows:
  assumes W: "\<And>d. d \<in> set ds \<Longrightarrow> wf_file sep d"
    and S: "\<And>d. d \<in> set ds \<Longrightarrow> py_int (sf_shot d) = Inr (shot d)"
    and F: "\<And>d. d \<in> set ds \<Longrightarrow> fits_int64 ((shot d - 1) div 8)"
  shows "\<exists>tm. get_64shot_transition_matrix sep py_int (map (file_path sep) ds) = Inr tm \<and>
           length tm = length ds \<and>
           (\<forall>r<length ds.
              tm ! r = [int (run_ids 0 (map (\<lambda>d. (sf_mineral d, sf_measure_point d)) ds) ! r),
                        (shot (ds ! r) - 1) div 8, (shot (ds ! r) - 1) mod 8])"
proof -
  let ?paths = "map (file_path sep) ds"
  define key where "key = (\<lambda>p. case file_key sep p of Inr k \<Rightarrow> k | Inl e \<Rightarrow> ([], []))"
  define sh where "sh = (\<lambda>p. case py_int (shot_token p) of Inr s \<Rightarrow> s | Inl e \<Rightarrow> 0)"
  have key_d: "key (file_path sep d) = (sf_mineral d, sf_measure_point d)" if "d \<in> set ds" for d
    by (simp add: key_def file_key_file_path [OF W [OF that]])
  have sh_d: "sh (file_path sep d) = shot d" if "d \<in> set ds" for d
    by (simp add: sh_def shot_token_file_path [OF W [OF that]] S [OF that])
  have K: "file_key sep f = Inr (key f)" if "f \<in> set ?paths" for f
  proof -
    from that obtain d where d: "d \<in> set ds" "f = file_path sep d" by auto
    show ?thesis unfolding d(2) key_d [OF d(1)] by (rule file_key_file_path [OF W [OF d(1)]])
  qed
  have S': "py_int (shot_token f) = Inr (sh f)" if "f \<in> set ?paths" for f
  proof -
    from that obtain d where d: "d \<in> set ds" "f = file_path sep d" by auto
    show ?thesis unfolding d(2) sh_d [OF d(1)]
      by (simp add: shot_token_file_path [OF W [OF d(1)]] S [OF d(1)])
  qed
  have F': "fits_int64 ((sh f - 1) div 8)" if "f \<in> set ?paths" for f
  proof -
    from that obtain d where d: "d \<in> set ds" "f = file_path sep d" by auto
    show ?thesis unfolding d(2) sh_d [OF d(1)] by (rule F [OF d(1)])
  qed
  from transition_matrix_parsed [where paths = ?paths and sep = sep and key = key
      and py_int = py_int and shot = sh, OF K S' F']
  obtain tm where g: "get_64shot_transition_matrix sep py_int ?paths = Inr tm"
    and l: "length tm = length ?paths"
    and r: "\<forall>r<length ?paths. tm ! r = [int (run_ids 0 (map key ?paths) ! r),
                        (sh (?paths ! r) - 1) div 8, (sh (?paths ! r) - 1) mod 8]"
    by blast
  have keys: "map key ?paths = map (\<lambda>d. (sf_mineral d, sf_measure_point d)) ds"
    using key_d by simp
  have rows: "tm ! r = [int (run_ids 0 (map (\<lambda>d. (sf_mineral d, sf_measure_point d)) ds) ! r),
                        (shot (ds ! r) - 1) div 8, (shot (ds ! r) - 1) mod 8]"
    if "r < length ds" for r
  proof -
    have "ds ! r \<in> set ds" using that by simp
    then have "sh (?paths ! r) = shot (ds ! r)" using that sh_d by simp
    then show ?thesis using r that unfolding keys by simp
  qed
  have l': "length tm = length ds" using l by simp
  show ?thesis using g l' rows by blast
qed

theorem transition_matrix_rows_witness:
  "get_64shot_transition_matrix CHR ''/'' decimal
     [''d/11_1_2_3_00001.npz'', ''d/11_1_2_3_00009.npz'', ''d/11_1_2_3_00064.npz'',
      ''d/12_1_2_3_00002.npz'']
   = Inr [ [0, 0, 0], [0, 1, 0], [0, 7, 7], [1, 0, 1] ]"
proof -
  let ?f = "\<lambda>m s. \<lparr>sf_dir = ''d'', sf_mineral = m, sf_class = ''1'', sf_subgroup = ''2'',
                    sf_measure_point = ''3'', sf_shot = s, sf_ext = ''.npz''\<rparr>"
  let ?ds = "[?f ''11'' ''00001'', ?f ''11'' ''00009'', ?f ''11'' ''00064'', ?f ''12'' ''00002'']"
  let ?shot = "\<lambda>d. case decimal (sf_shot d) of Inr s \<Rightarrow> s | Inl e \<Rightarrow> 0"
  have sa: "decimal ''00001'' = Inr 1" by code_simp
  have sb: "decimal ''00009'' = Inr 9" by code_simp
  have sc: "decimal ''00064'' = Inr 64" by code_simp
  have sd: "decimal ''00002'' = Inr 2" by code_simp
  have W: "\<And>d. d \<in> set ?ds \<Longrightarrow> wf_file CHR ''/'' d"
    by (auto simp add: wf_file_def file_name_def)
  have S: "\<And>d. d \<in> set ?ds \<Longrightarrow> decimal (sf_shot d) = Inr (?shot d)"
    using sa sb sc sd by auto
  have F: "\<And>d. d \<in> set ?ds \<Longrightarrow> fits_int64 ((?shot d - 1) div 8)"
    using sa sb sc sd by (auto simp add: fits_int64_def)
  have paths: "map (file_path CHR ''/'') ?ds =
     [''d/11_1_2_3_00001.npz'', ''d/11_1_2_3_00009.npz'', ''d/11_1_2_3_00064.npz'',
      ''d/12_1_2_3_00002.npz'']"
    by (simp add: file_path_def file_name_def)
  from transition_matrix_rows [where ds = ?ds and sep = "CHR ''/''" and py_int = decimal
      and shot = ?shot, OF W S F]
  obtain tm where g: "get_64shot_transition_matrix CHR ''/'' decimal (map (file_path CHR ''/'') ?ds) = Inr tm"
    and l: "length tm = length ?ds"
    and r: "\<forall>r<length ?ds. tm ! r =
               [int (run_ids 0 (map (\<lambda>d. (sf_mineral d, sf_measure_point d)) ?ds) ! r),
                (?shot (?ds ! r) - 1) div 8, (?shot (?ds ! r) - 1) mod 8]"
    by blast
  have "tm ! 0 = [0, 0, 0]" using r by (simp add: sa sb sc sd)
  moreover have "tm ! 1 = [0, 1, 0]" using r by (simp add: sa sb sc sd)
  moreover have "tm ! 2 = [0, 7, 7]" using r by (simp add: sa sb sc sd)
  moreover have "tm ! 3 = [1, 0, 1]" using r by (simp add: sa sb sc sd)
  moreover have "tm = [tm ! 0, tm ! 1, tm ! 2, tm ! 3]"
    using l by (intro nth_equalityI) (auto simp add: less_Suc_eq numeral_3_eq_3 numeral_2_eq_2)
  ultimately have "tm = [ [0, 0, 0], [0, 1, 0], [0, 7, 7], [1, 0, 1] ]" by simp
  then show ?thesis using g unfolding paths by simp
qed

text \<open>
  C6 as stated fails on a file reference named by the six fields of the specification's
  naming convention (mineral id, subgroup, class, measure point, configuration, shot): the
  name does not unpack into five fields and the function raises \<open>ValueError\<close>.
\<close>

theorem transition_matrix_six_fields_counterexample:
  "get_64shot_transition_matrix CHR ''/'' decimal [''d/11_2_1_3_7_00001.npz''] = Inl ValueError"
  by code_simp

end
